theory Spec2Isabelle
  imports Complex_Main "HOL-Library.AList" "HOL-Library.Multiset"
begin

section \<open>The radix tree of \<^verbatim>\<open>radix_cache.py\<close> as a store of nodes\<close>

text \<open>
  The Python objects are mutable and are shared by reference (parent links, the
  \<^verbatim>\<open>last_node\<close> handles callers keep, the eviction heap), so the tree is embedded as an
  explicit store: a node reference is a natural number, \<open>heap\<close> maps every reference to
  the fields of its object, and \<open>next_ref\<close> is the next unused reference. A Python
  \<^verbatim>\<open>dict\<close> keeps insertion order, which \<^verbatim>\<open>_collect_leaves\<close> and \<^verbatim>\<open>_delete_leaf\<close>
  observe, so \<open>children\<close> is an association list. Python integers are \<open>int\<close>; lengths
  and slice positions are \<open>nat\<close>. The field \<^verbatim>\<open>value\<close> is called \<open>val\<close> and the field
  \<^verbatim>\<open>evictable_size_\<close> is called \<open>evictable_size'\<close>, since neither name can be written
  here.
\<close>

type_synonym token = int
type_synonym slot = int
type_synonym node_ref = nat

datatype error = AttributeError | IndexError | TypeError | UnboundLocalError

record TreeNode =
  children :: "(token \<times> node_ref) list"
  parent :: "node_ref option"
  key :: "token list"
  val :: "slot list"
  lock_ref :: int
  last_access_time :: real
  ref_counter :: int

text \<open>
  \<^verbatim>\<open>time.time()\<close> is the only input from outside: \<open>clock\<close> is the unconstrained
  sequence of its readings and \<open>ticks\<close> counts the readings taken so far. The two
  pools of the constructor are only used by \<^verbatim>\<open>cache_finished_req\<close> and
  \<^verbatim>\<open>cache_unfinished_req\<close> and are left out.
\<close>

record RadixCache =
  heap :: "node_ref \<Rightarrow> TreeNode"
  next_ref :: node_ref
  clock :: "nat \<Rightarrow> real"
  ticks :: nat
  root_node :: node_ref
  evictable_size' :: int
  disable :: bool
  flag :: bool
  call_counter :: int
  token_counter :: int

definition time_time :: "RadixCache \<Rightarrow> real \<times> RadixCache" where
  "time_time s = (clock s (ticks s), s\<lparr>ticks := Suc (ticks s)\<rparr>)"

definition upd_node :: "node_ref \<Rightarrow> (TreeNode \<Rightarrow> TreeNode) \<Rightarrow> RadixCache \<Rightarrow> RadixCache" where
  "upd_node r f s = s\<lparr>heap := (heap s)(r := f (heap s r))\<rparr>"

text \<open>\<^verbatim>\<open>TreeNode()\<close>: a new object with no children, no parent, \<^verbatim>\<open>lock_ref = 0\<close> and
  the current time. Its \<^verbatim>\<open>key\<close> and \<^verbatim>\<open>value\<close> are \<^verbatim>\<open>None\<close> until the caller assigns
  them, which every caller does before reading them; they start as \<open>[]\<close> here.\<close>

definition new_TreeNode :: "RadixCache \<Rightarrow> node_ref \<times> RadixCache" where
  "new_TreeNode s =
     (let (t, s1) = time_time s; r = next_ref s1 in
      (r, s1\<lparr>heap := (heap s1)(r := \<lparr>children = [], parent = None, key = [], val = [],
                                       lock_ref = 0, last_access_time = t, ref_counter = 0\<rparr>),
              next_ref := Suc r\<rparr>))"

text \<open>\<^verbatim>\<open>node.last_access_time = time.time()\<close>\<close>

definition touch :: "node_ref \<Rightarrow> RadixCache \<Rightarrow> RadixCache" where
  "touch r s = (let (t, s1) = time_time s in upd_node r (\<lambda>n. n\<lparr>last_access_time := t\<rparr>) s1)"

fun key_match :: "token list \<Rightarrow> token list \<Rightarrow> nat" where
  "key_match (k0 # key0) (k1 # key1) = (if k0 \<noteq> k1 then 0 else Suc (key_match key0 key1))"
| "key_match _ _ = 0"

subsection \<open>Construction and reset\<close>

definition reset :: "RadixCache \<Rightarrow> RadixCache" where
  "reset s =
     (let (r, s1) = new_TreeNode s;
          s2 = upd_node r (\<lambda>n. n\<lparr>key := [], val := [], lock_ref := 1\<rparr>) s1
      in s2\<lparr>root_node := r, evictable_size' := 0\<rparr>)"

text \<open>\<^verbatim>\<open>RadixCache(req_to_token_pool, token_to_kv_pool, flag, disable)\<close>, run against the
  clock \<open>c\<close>. No object exists before the constructor, so the initial store is
  arbitrary.\<close>

definition init :: "(nat \<Rightarrow> real) \<Rightarrow> bool \<Rightarrow> bool \<Rightarrow> RadixCache" where
  "init c flag0 disable0 =
     (reset \<lparr>heap = (\<lambda>_. \<lparr>children = [], parent = None, key = [], val = [], lock_ref = 0,
                           last_access_time = 0, ref_counter = 0\<rparr>),
             next_ref = 0, clock = c, ticks = 0, root_node = 0, evictable_size' = 0,
             disable = disable0, flag = flag0, call_counter = 0, token_counter = 0\<rparr>)
       \<lparr>call_counter := 0, token_counter := 0, flag := flag0\<rparr>"

subsection \<open>Splitting, matching and inserting\<close>

text \<open>\<^verbatim>\<open>_split_node(key, child, split_len)\<close>. \<^verbatim>\<open>key[split_len:][0]\<close> and
  \<^verbatim>\<open>key[:split_len][0]\<close> raise \<^verbatim>\<open>IndexError\<close> on an empty slice, and
  \<^verbatim>\<open>new_node.parent.children\<close> raises \<^verbatim>\<open>AttributeError\<close> when the parent is
  \<^verbatim>\<open>None\<close>. Assigning to a dictionary key keeps the position of a key that is
  present and appends a new one, as \<open>AList.update\<close> does.\<close>

definition split_node ::
  "RadixCache \<Rightarrow> token list \<Rightarrow> node_ref \<Rightarrow> nat \<Rightarrow> error + (node_ref \<times> RadixCache)" where
  "split_node s key0 child split_len =
     (let (new_node, s1) = new_TreeNode s in
      case drop split_len key0 of
        [] \<Rightarrow> Inl IndexError
      | k1 # _ \<Rightarrow>
          let c = heap s1 child;
              s2 = upd_node new_node
                     (\<lambda>n. n\<lparr>children := [(k1, child)], parent := parent c,
                            lock_ref := lock_ref c, key := take split_len (key c),
                            val := take split_len (val c)\<rparr>) s1;
              s3 = upd_node child
                     (\<lambda>n. n\<lparr>parent := Some new_node, key := drop split_len (key n),
                            val := drop split_len (val n)\<rparr>) s2
          in case parent (heap s3 new_node) of
               None \<Rightarrow> Inl AttributeError
             | Some p \<Rightarrow>
                 (case take split_len key0 of
                    [] \<Rightarrow> Inl IndexError
                  | k0 # _ \<Rightarrow>
                      Inr (new_node,
                           upd_node p (\<lambda>n. n\<lparr>children := AList.update k0 new_node (children n)\<rparr>) s3)))"

text \<open>The recursive helpers walk the store, which for an arbitrary store need not end
  (Python stops with \<^verbatim>\<open>RecursionError\<close>): they take fuel, and \<open>None\<close> is "out of
  fuel". The accumulators \<^verbatim>\<open>value\<close> (a list of segments) and \<^verbatim>\<open>last_node\<close> (a
  one-element list used as a mutable cell) are passed and returned.\<close>

fun match_prefix_helper ::
  "nat \<Rightarrow> RadixCache \<Rightarrow> node_ref \<Rightarrow> token list \<Rightarrow> slot list list \<Rightarrow> node_ref
     \<Rightarrow> (error + (slot list list \<times> node_ref \<times> RadixCache)) option" where
  "match_prefix_helper 0 s node key0 value last_node = None"
| "match_prefix_helper (Suc fuel) s node key0 value last_node =
     (let s1 = touch node s in
      if length key0 = 0 then Some (Inr (value, last_node, s1))
      else
        case map_of (children (heap s1 node)) (hd key0) of
          None \<Rightarrow> Some (Inr (value, last_node, s1))
        | Some child \<Rightarrow>
            let prefix_len = key_match (key (heap s1 child)) key0 in
            if prefix_len < length (key (heap s1 child)) then
              (case split_node s1 (key (heap s1 child)) child prefix_len of
                 Inl e \<Rightarrow> Some (Inl e)
               | Inr (new_node, s2) \<Rightarrow>
                   Some (Inr (value @ [val (heap s2 new_node)], new_node, s2)))
            else
              match_prefix_helper fuel s1 child (drop prefix_len key0)
                (value @ [val (heap s1 child)]) child)"

text \<open>\<^verbatim>\<open>return prefix_len + self._insert_helper(...)\<close>\<close>

definition add_prefix ::
  "nat \<Rightarrow> (error + (nat \<times> RadixCache)) option \<Rightarrow> (error + (nat \<times> RadixCache)) option" where
  "add_prefix prefix_len r =
     (case r of
        None \<Rightarrow> None
      | Some (Inl e) \<Rightarrow> Some (Inl e)
      | Some (Inr (n, s)) \<Rightarrow> Some (Inr (prefix_len + n, s)))"

fun insert_helper ::
  "nat \<Rightarrow> RadixCache \<Rightarrow> node_ref \<Rightarrow> token list \<Rightarrow> slot list
     \<Rightarrow> (error + (nat \<times> RadixCache)) option" where
  "insert_helper 0 s node key0 value = None"
| "insert_helper (Suc fuel) s node key0 value =
     (let s1 = touch node s in
      if length key0 = 0 then Some (Inr (0, s1))
      else
        case map_of (children (heap s1 node)) (hd key0) of
          Some child \<Rightarrow>
            let prefix_len = key_match (key (heap s1 child)) key0 in
            if prefix_len = length (key (heap s1 child)) then
              if prefix_len = length key0 then Some (Inr (prefix_len, s1))
              else
                add_prefix prefix_len
                  (insert_helper fuel s1 child (drop prefix_len key0) (drop prefix_len value))
            else
              (case split_node s1 (key (heap s1 child)) child prefix_len of
                 Inl e \<Rightarrow> Some (Inl e)
               | Inr (new_node, s2) \<Rightarrow>
                   add_prefix prefix_len
                     (insert_helper fuel s2 new_node (drop prefix_len key0)
                        (drop prefix_len value)))
        | None \<Rightarrow>
            if length key0 \<noteq> 0 then
              (let (new_node, s2) = new_TreeNode s1;
                   s3 = upd_node new_node
                          (\<lambda>n. n\<lparr>parent := Some node, key := key0, val := value\<rparr>) s2;
                   s4 = upd_node node
                          (\<lambda>n. n\<lparr>children := AList.update (hd key0) new_node (children n)\<rparr>) s3
               in Some (Inr (0, s4\<lparr>evictable_size' := evictable_size' s4 + int (length value)\<rparr>)))
            else Some (Inr (0, s1)))"

text \<open>\<^verbatim>\<open>_total_size_helper\<close>: the node's own length plus the sizes of its children, in
  dictionary order.\<close>

fun total_size_helper :: "nat \<Rightarrow> RadixCache \<Rightarrow> node_ref \<Rightarrow> int option" where
  "total_size_helper 0 s node = None"
| "total_size_helper (Suc fuel) s node =
     fold (\<lambda>child x. case x of
                        None \<Rightarrow> None
                      | Some x' \<Rightarrow> (case total_size_helper fuel s child of
                                     None \<Rightarrow> None
                                   | Some y \<Rightarrow> Some (x' + y)))
          (map snd (children (heap s node)))
          (Some (int (length (val (heap s node)))))"

subsection \<open>The public operations on the tree\<close>

text \<open>\<^verbatim>\<open>match_prefix\<close> returns the concatenation of the collected segments
  (\<^verbatim>\<open>torch.concat\<close>, or the empty tensor) and the last node.\<close>

definition match_prefix ::
  "nat \<Rightarrow> RadixCache \<Rightarrow> token list \<Rightarrow> (error + (slot list \<times> node_ref \<times> RadixCache)) option" where
  "match_prefix fuel s key0 =
     (if disable s then Some (Inr ([], root_node s, s))
      else
        case match_prefix_helper fuel s (root_node s) key0 [] (root_node s) of
          None \<Rightarrow> None
        | Some (Inl e) \<Rightarrow> Some (Inl e)
        | Some (Inr (value, last_node, s')) \<Rightarrow> Some (Inr (concat value, last_node, s')))"

text \<open>\<^verbatim>\<open>insert(key, value=None)\<close>: a missing value is a copy of the key.\<close>

definition insert_op ::
  "nat \<Rightarrow> RadixCache \<Rightarrow> token list \<Rightarrow> slot list option \<Rightarrow> (error + (nat \<times> RadixCache)) option" where
  "insert_op fuel s key0 value =
     (if disable s then Some (Inr (0, s))
      else insert_helper fuel s (root_node s) key0 (case value of None \<Rightarrow> key0 | Some v \<Rightarrow> v))"

definition total_size :: "nat \<Rightarrow> RadixCache \<Rightarrow> int option" where
  "total_size fuel s = total_size_helper fuel s (root_node s)"

definition evictable_size :: "RadixCache \<Rightarrow> int" where
  "evictable_size s = evictable_size' s"

subsection \<open>Pinning\<close>

text \<open>The loops of \<^verbatim>\<open>inc_lock_ref\<close> and \<^verbatim>\<open>dec_lock_ref\<close>. The loop variable is a node
  or \<^verbatim>\<open>None\<close> (the parent of a root); \<^verbatim>\<open>None != self.root_node\<close> holds, and reading
  \<^verbatim>\<open>None.lock_ref\<close> raises \<^verbatim>\<open>AttributeError\<close>.\<close>

fun inc_lock_ref_loop ::
  "nat \<Rightarrow> RadixCache \<Rightarrow> node_ref option \<Rightarrow> int \<Rightarrow> (error + (int \<times> RadixCache)) option" where
  "inc_lock_ref_loop 0 s node delta = None"
| "inc_lock_ref_loop (Suc fuel) s node delta =
     (if node \<noteq> Some (root_node s) then
        (case node of
           None \<Rightarrow> Some (Inl AttributeError)
         | Some n \<Rightarrow>
             let (s1, delta1) =
                   (if lock_ref (heap s n) = 0
                    then (s\<lparr>evictable_size' := evictable_size' s - int (length (val (heap s n)))\<rparr>,
                          delta - int (length (val (heap s n))))
                    else (s, delta));
                 s2 = upd_node n (\<lambda>x. x\<lparr>lock_ref := lock_ref x + 1\<rparr>) s1
             in inc_lock_ref_loop fuel s2 (parent (heap s2 n)) delta1)
      else Some (Inr (delta, s)))"

definition inc_lock_ref ::
  "nat \<Rightarrow> RadixCache \<Rightarrow> node_ref \<Rightarrow> (error + (int \<times> RadixCache)) option" where
  "inc_lock_ref fuel s node =
     (if disable s then Some (Inr (0, s)) else inc_lock_ref_loop fuel s (Some node) 0)"

fun dec_lock_ref_loop ::
  "nat \<Rightarrow> RadixCache \<Rightarrow> node_ref option \<Rightarrow> int \<Rightarrow> (error + (int \<times> RadixCache)) option" where
  "dec_lock_ref_loop 0 s node delta = None"
| "dec_lock_ref_loop (Suc fuel) s node delta =
     (if node \<noteq> Some (root_node s) then
        (case node of
           None \<Rightarrow> Some (Inl AttributeError)
         | Some n \<Rightarrow>
             let (s1, delta1) =
                   (if lock_ref (heap s n) = 1
                    then (s\<lparr>evictable_size' := evictable_size' s + int (length (val (heap s n)))\<rparr>,
                          delta + int (length (val (heap s n))))
                    else (s, delta));
                 s2 = upd_node n (\<lambda>x. x\<lparr>lock_ref := lock_ref x - 1\<rparr>) s1
             in dec_lock_ref_loop fuel s2 (parent (heap s2 n)) delta1)
      else Some (Inr (delta, s)))"

definition dec_lock_ref ::
  "nat \<Rightarrow> RadixCache \<Rightarrow> node_ref \<Rightarrow> (error + (int \<times> RadixCache)) option" where
  "dec_lock_ref fuel s node =
     (if disable s then Some (Inr (0, s)) else dec_lock_ref_loop fuel s (Some node) 0)"

subsection \<open>Leaves and their deletion\<close>

text \<open>\<^verbatim>\<open>_collect_leaves\<close>: the stack is a Python list, popped and extended at its end.\<close>

fun collect_leaves_loop ::
  "nat \<Rightarrow> RadixCache \<Rightarrow> node_ref list \<Rightarrow> node_ref list \<Rightarrow> node_ref list option" where
  "collect_leaves_loop 0 s stack ret_list = None"
| "collect_leaves_loop (Suc fuel) s stack ret_list =
     (if stack \<noteq> [] then
        (let cur_node = last stack; stack1 = butlast stack in
         if length (children (heap s cur_node)) = 0
         then collect_leaves_loop fuel s stack1 (ret_list @ [cur_node])
         else collect_leaves_loop fuel s (stack1 @ map snd (children (heap s cur_node))) ret_list)
      else Some ret_list)"

definition collect_leaves :: "nat \<Rightarrow> RadixCache \<Rightarrow> node_ref list option" where
  "collect_leaves fuel s = collect_leaves_loop fuel s [root_node s] []"

text \<open>The \<^verbatim>\<open>for k, v in node.parent.children.items()\<close> loop of \<^verbatim>\<open>_delete_leaf\<close>: the
  third argument is the binding of \<^verbatim>\<open>k\<close> so far, \<open>None\<close> while it is unbound. The loop
  leaves \<^verbatim>\<open>k\<close> at the entry that holds the node, or at the last entry when none
  does.\<close>

fun items_loop :: "(token \<times> node_ref) list \<Rightarrow> node_ref \<Rightarrow> token option \<Rightarrow> token option" where
  "items_loop [] node k = k"
| "items_loop ((k', v) # items) node k =
     (if v = node then Some k' else items_loop items node (Some k'))"

definition delete_leaf :: "RadixCache \<Rightarrow> node_ref \<Rightarrow> error + RadixCache" where
  "delete_leaf s node =
     (case parent (heap s node) of
        None \<Rightarrow> Inl AttributeError
      | Some p \<Rightarrow>
          (case items_loop (children (heap s p)) node None of
             None \<Rightarrow> Inl UnboundLocalError
           | Some k \<Rightarrow>
               let s1 = upd_node p (\<lambda>n. n\<lparr>children := AList.delete k (children n)\<rparr>) s
               in Inr (s1\<lparr>evictable_size' :=
                            evictable_size' s1 - int (length (key (heap s1 node)))\<rparr>)))"

subsection \<open>The standard library's \<^verbatim>\<open>heapq\<close>\<close>

text \<open>\<^verbatim>\<open>heapq\<close> works in place on a Python list with the elements' \<^verbatim>\<open>__lt__\<close>, here
  the parameter \<open>lt\<close>. \<^verbatim>\<open>_siftdown(heap, startpos, pos)\<close> moves the item at \<open>pos\<close> up
  towards \<open>startpos\<close>; \<^verbatim>\<open>_siftup(heap, pos)\<close> moves the smaller child up until a leaf
  position is reached and then sifts the item down from there. Every position these
  functions read is inside the list at each of their calls below.\<close>

function siftdown_loop :: "('a \<Rightarrow> 'a \<Rightarrow> bool) \<Rightarrow> 'a list \<Rightarrow> 'a \<Rightarrow> nat \<Rightarrow> nat \<Rightarrow> 'a list" where
  "siftdown_loop lt h newitem startpos pos =
     (if pos > startpos then
        (let parentpos = (pos - 1) div 2; parent = h ! parentpos in
         if lt newitem parent then siftdown_loop lt (h[pos := parent]) newitem startpos parentpos
         else h[pos := newitem])
      else h[pos := newitem])"
  by pat_completeness auto
termination
  by (relation "measure (\<lambda>(lt, h, newitem, startpos, pos). pos)") auto

definition siftdown :: "('a \<Rightarrow> 'a \<Rightarrow> bool) \<Rightarrow> 'a list \<Rightarrow> nat \<Rightarrow> nat \<Rightarrow> 'a list" where
  "siftdown lt h startpos pos = siftdown_loop lt h (h ! pos) startpos pos"

function siftup_loop :: "('a \<Rightarrow> 'a \<Rightarrow> bool) \<Rightarrow> 'a list \<Rightarrow> nat \<Rightarrow> nat \<Rightarrow> 'a list \<times> nat" where
  "siftup_loop lt h pos childpos =
     (if childpos < length h then
        (let rightpos = childpos + 1;
             childpos1 = (if rightpos < length h \<and> \<not> lt (h ! childpos) (h ! rightpos)
                          then rightpos else childpos)
         in siftup_loop lt (h[pos := h ! childpos1]) childpos1 (2 * childpos1 + 1))
      else (h, pos))"
  by pat_completeness auto
termination
  by (relation "measure (\<lambda>(lt, h, pos, childpos). length h - childpos)") auto

definition siftup :: "('a \<Rightarrow> 'a \<Rightarrow> bool) \<Rightarrow> 'a list \<Rightarrow> nat \<Rightarrow> 'a list" where
  "siftup lt h pos =
     (let newitem = h ! pos;
          (h1, pos1) = siftup_loop lt h pos (2 * pos + 1)
      in siftdown lt (h1[pos1 := newitem]) pos pos1)"

definition heappush :: "('a \<Rightarrow> 'a \<Rightarrow> bool) \<Rightarrow> 'a list \<Rightarrow> 'a \<Rightarrow> 'a list" where
  "heappush lt h item = siftdown lt (h @ [item]) 0 (length (h @ [item]) - 1)"

text \<open>\<^verbatim>\<open>heappop\<close> is only called on a non-empty list here (the loops test
  \<^verbatim>\<open>len(leaves)\<close> first).\<close>

definition heappop :: "('a \<Rightarrow> 'a \<Rightarrow> bool) \<Rightarrow> 'a list \<Rightarrow> 'a \<times> 'a list" where
  "heappop lt h =
     (let lastelt = last h; h1 = butlast h in
      if h1 \<noteq> [] then
        (let returnitem = h1 ! 0; h2 = siftup lt (h1[0 := lastelt]) 0 in (returnitem, h2))
      else (lastelt, h1))"

definition heapify :: "('a \<Rightarrow> 'a \<Rightarrow> bool) \<Rightarrow> 'a list \<Rightarrow> 'a list" where
  "heapify lt x = fold (\<lambda>i h. siftup lt h i) (rev [0..<length x div 2]) x"

text \<open>\<^verbatim>\<open>TreeNode.__lt__\<close>\<close>

definition node_lt :: "RadixCache \<Rightarrow> node_ref \<Rightarrow> node_ref \<Rightarrow> bool" where
  "node_lt s a b = (last_access_time (heap s a) < last_access_time (heap s b))"

subsection \<open>Eviction\<close>

text \<open>The \<^verbatim>\<open>while\<close> loop of \<^verbatim>\<open>evict\<close>. The callback belongs to the caller; \<open>freed\<close>
  logs the arguments it is called with, in order. The loop state is the cache, the
  log, the list \<^verbatim>\<open>leaves\<close> and \<^verbatim>\<open>num_evicted\<close>, all of which the loop returns.\<close>

fun evict_loop ::
  "nat \<Rightarrow> RadixCache \<Rightarrow> slot list list \<Rightarrow> node_ref list \<Rightarrow> int \<Rightarrow> int
     \<Rightarrow> (error + (RadixCache \<times> slot list list \<times> int)) option" where
  "evict_loop 0 s freed leaves num_evicted num_tokens = None"
| "evict_loop (Suc fuel) s freed leaves num_evicted num_tokens =
     (if num_evicted < num_tokens \<and> length leaves \<noteq> 0 then
        (let (x, leaves1) = heappop (node_lt s) leaves in
         if x = root_node s then Some (Inr (s, freed, num_evicted))
         else if lock_ref (heap s x) > 0 then
           evict_loop fuel s freed leaves1 num_evicted num_tokens
         else
           (let freed1 = freed @ [val (heap s x)];
                num_evicted1 = num_evicted + int (length (val (heap s x)))
            in case delete_leaf s x of
                 Inl e \<Rightarrow> Some (Inl e)
               | Inr s1 \<Rightarrow>
                   (case parent (heap s1 x) of
                      None \<Rightarrow> Some (Inl AttributeError)
                    | Some p \<Rightarrow>
                        if length (children (heap s1 p)) = 0
                        then evict_loop fuel s1 freed1 (heappush (node_lt s1) leaves1 p)
                               num_evicted1 num_tokens
                        else evict_loop fuel s1 freed1 leaves1 num_evicted1 num_tokens)))
      else Some (Inr (s, freed, num_evicted)))"

text \<open>\<^verbatim>\<open>evict(num_tokens, evict_callback, wait_tensor=None, it_counter=None)\<close>: the two
  optional arguments are only printed or ignored. The result is the cache and the
  log of callback arguments.\<close>

definition evict ::
  "nat \<Rightarrow> RadixCache \<Rightarrow> int \<Rightarrow> node_ref list option
     \<Rightarrow> (error + (RadixCache \<times> slot list list)) option" where
  "evict fuel s num_tokens wait_tensor =
     (let s0 = s\<lparr>flag := True, call_counter := call_counter s + 1\<rparr> in
      if disable s0 then Some (Inr (s0, []))
      else
        case collect_leaves fuel s0 of
          None \<Rightarrow> None
        | Some leaves0 \<Rightarrow>
            (case evict_loop fuel s0 [] (heapify (node_lt s0) leaves0) 0 num_tokens of
               None \<Rightarrow> None
             | Some (Inl e) \<Rightarrow> Some (Inl e)
             | Some (Inr (s1, freed, num_evicted)) \<Rightarrow>
                 Some (Inr (s1\<lparr>token_counter := token_counter s1 + num_evicted\<rparr>, freed))))"

text \<open>The loop of \<^verbatim>\<open>evict1\<close>. \<^verbatim>\<open>x not in wait_tensor\<close> raises \<^verbatim>\<open>TypeError\<close> when
  \<^verbatim>\<open>wait_tensor\<close> is \<^verbatim>\<open>None\<close>; on a list it compares by identity (\<^verbatim>\<open>TreeNode\<close> defines
  no \<^verbatim>\<open>__eq__\<close>).\<close>

fun evict1_loop ::
  "nat \<Rightarrow> RadixCache \<Rightarrow> slot list list \<Rightarrow> node_ref list \<Rightarrow> int \<Rightarrow> int \<Rightarrow> node_ref list option
     \<Rightarrow> (error + (RadixCache \<times> slot list list \<times> int)) option" where
  "evict1_loop 0 s freed leaves num_evicted num_tokens wait_tensor = None"
| "evict1_loop (Suc fuel) s freed leaves num_evicted num_tokens wait_tensor =
     (if num_evicted < num_tokens \<and> length leaves \<noteq> 0 then
        (let (x, leaves1) = heappop (node_lt s) leaves in
         if x = root_node s then Some (Inr (s, freed, num_evicted))
         else if lock_ref (heap s x) > 0 then
           evict1_loop fuel s freed leaves1 num_evicted num_tokens wait_tensor
         else
           (case wait_tensor of
              None \<Rightarrow> Some (Inl TypeError)
            | Some w \<Rightarrow>
                if x \<notin> set w then
                  (let freed1 = freed @ [val (heap s x)];
                       num_evicted1 = num_evicted + int (length (val (heap s x)))
                   in case delete_leaf s x of
                        Inl e \<Rightarrow> Some (Inl e)
                      | Inr s1 \<Rightarrow>
                          (case parent (heap s1 x) of
                             None \<Rightarrow> Some (Inl AttributeError)
                           | Some p \<Rightarrow>
                               if length (children (heap s1 p)) = 0
                               then evict1_loop fuel s1 freed1 (heappush (node_lt s1) leaves1 p)
                                      num_evicted1 num_tokens wait_tensor
                               else evict1_loop fuel s1 freed1 leaves1 num_evicted1 num_tokens
                                      wait_tensor))
                else evict1_loop fuel s freed leaves1 num_evicted num_tokens wait_tensor))
      else Some (Inr (s, freed, num_evicted)))"

text \<open>\<^verbatim>\<open>evict1\<close> does not call \<^verbatim>\<open>heapq.heapify\<close> (the call is commented out): the loop
  pops from the list as \<^verbatim>\<open>_collect_leaves\<close> returned it.\<close>

definition evict1 ::
  "nat \<Rightarrow> RadixCache \<Rightarrow> int \<Rightarrow> node_ref list option
     \<Rightarrow> (error + (RadixCache \<times> slot list list)) option" where
  "evict1 fuel s num_tokens wait_tensor =
     (let s0 = s\<lparr>flag := True, call_counter := call_counter s + 1\<rparr> in
      if disable s0 then Some (Inr (s0, []))
      else
        case collect_leaves fuel s0 of
          None \<Rightarrow> None
        | Some leaves0 \<Rightarrow>
            (case evict1_loop fuel s0 [] leaves0 0 num_tokens wait_tensor of
               None \<Rightarrow> None
             | Some (Inl e) \<Rightarrow> Some (Inl e)
             | Some (Inr (s1, freed, num_evicted)) \<Rightarrow>
                 Some (Inr (s1\<lparr>token_counter := token_counter s1 + num_evicted\<rparr>, freed))))"

subsection \<open>Sequences of public operations\<close>

text \<open>A call of a public operation, with its arguments; a node argument is the
  reference the caller holds. \<open>apply_op\<close> is the cache after the call and \<open>run\<close>
  performs a sequence of calls, stopping at the first that raises.\<close>

datatype op =
  Insert "token list" "slot list option"
| MatchPrefix "token list"
| IncLockRef node_ref
| DecLockRef node_ref
| Evict int "node_ref list option"
| Evict1 int "node_ref list option"
| Reset

fun apply_op :: "nat \<Rightarrow> op \<Rightarrow> RadixCache \<Rightarrow> (error + RadixCache) option" where
  "apply_op fuel (Insert key0 value) s = map_option (map_sum id snd) (insert_op fuel s key0 value)"
| "apply_op fuel (MatchPrefix key0) s =
     map_option (map_sum id (\<lambda>(value, last_node, s'). s')) (match_prefix fuel s key0)"
| "apply_op fuel (IncLockRef node) s = map_option (map_sum id snd) (inc_lock_ref fuel s node)"
| "apply_op fuel (DecLockRef node) s = map_option (map_sum id snd) (dec_lock_ref fuel s node)"
| "apply_op fuel (Evict num_tokens wait_tensor) s =
     map_option (map_sum id fst) (evict fuel s num_tokens wait_tensor)"
| "apply_op fuel (Evict1 num_tokens wait_tensor) s =
     map_option (map_sum id fst) (evict1 fuel s num_tokens wait_tensor)"
| "apply_op fuel Reset s = Some (Inr (reset s))"

fun run :: "nat \<Rightarrow> op list \<Rightarrow> RadixCache \<Rightarrow> (error + RadixCache) option" where
  "run fuel [] s = Some (Inr s)"
| "run fuel (x # xs) s =
     (case apply_op fuel x s of
        None \<Rightarrow> None
      | Some (Inl e) \<Rightarrow> Some (Inl e)
      | Some (Inr s') \<Rightarrow> run fuel xs s')"

section \<open>Well-formed trees\<close>

text \<open>The nodes of the tree are the objects reachable from the root through
  \<^verbatim>\<open>children\<close>.\<close>

inductive in_tree :: "RadixCache \<Rightarrow> node_ref \<Rightarrow> bool" for s :: RadixCache where
  in_tree_root: "in_tree s (root_node s)"
| in_tree_child: "in_tree s n \<Longrightarrow> (k, c) \<in> set (children (heap s n)) \<Longrightarrow> in_tree s c"

text \<open>\<open>tree_inv s L d\<close>: the objects \<open>L\<close> form a tree under the root (the spec's global
  invariants 1 and 2). Every child entry of a node of \<open>L\<close> is keyed by the first token
  of the child's non-empty label and points to a node of \<open>L\<close> whose parent link
  points back; the keys of a dictionary are distinct; every node but the root is
  entered in its parent's dictionary; the rank \<open>d\<close> grows from parent to child, so the
  links have no cycle; allocated references are below \<open>next_ref\<close>.\<close>

definition tree_inv :: "RadixCache \<Rightarrow> node_ref set \<Rightarrow> (node_ref \<Rightarrow> nat) \<Rightarrow> bool" where
  "tree_inv s L d \<longleftrightarrow>
     finite L \<and> root_node s \<in> L \<and>
     parent (heap s (root_node s)) = None \<and>
     key (heap s (root_node s)) = [] \<and> val (heap s (root_node s)) = [] \<and>
     (\<forall>n\<in>L. n < next_ref s \<and> distinct (map fst (children (heap s n))) \<and>
        (\<forall>(k, c)\<in>set (children (heap s n)).
           c \<in> L \<and> parent (heap s c) = Some n \<and> d n < d c \<and>
           key (heap s c) \<noteq> [] \<and> hd (key (heap s c)) = k)) \<and>
     (\<forall>n\<in>L. n \<noteq> root_node s \<longrightarrow>
        (\<exists>p\<in>L. parent (heap s n) = Some p \<and>
                (hd (key (heap s n)), n) \<in> set (children (heap s p))))"

definition wf_tree :: "RadixCache \<Rightarrow> bool" where
  "wf_tree s \<longleftrightarrow> (\<exists>L d. tree_inv s L d)"

text \<open>The last branch of \<^verbatim>\<open>_insert_helper\<close>, which hangs a new leaf under \<open>node\<close>, as
  a function of its own for the proofs.\<close>

definition new_leaf :: "RadixCache \<Rightarrow> node_ref \<Rightarrow> token list \<Rightarrow> slot list \<Rightarrow> RadixCache" where
  "new_leaf s node key0 value =
     (let (new_node, s2) = new_TreeNode s;
          s3 = upd_node new_node (\<lambda>n. n\<lparr>parent := Some node, key := key0, val := value\<rparr>) s2;
          s4 = upd_node node
                 (\<lambda>n. n\<lparr>children := AList.update (hd key0) new_node (children n)\<rparr>) s3
      in s4\<lparr>evictable_size' := evictable_size' s4 + int (length value)\<rparr>)"

text \<open>The spec's invariant 4 for the nodes below the root.\<close>

definition lengths_ok :: "RadixCache \<Rightarrow> bool" where
  "lengths_ok s \<longleftrightarrow>
     (\<forall>n. in_tree s n \<and> n \<noteq> root_node s \<longrightarrow>
          length (key (heap s n)) = length (val (heap s n)))"

text \<open>The sum the spec's invariant 5 compares the counter with.\<close>

definition evictable_sum :: "RadixCache \<Rightarrow> int" where
  "evictable_sum s =
     (\<Sum>n | in_tree s n \<and> n \<noteq> root_node s \<and> lock_ref (heap s n) = 0.
        int (length (val (heap s n))))"

text \<open>The slot indices stored in the tree, as a multiset.\<close>

definition stored_slots :: "RadixCache \<Rightarrow> slot multiset" where
  "stored_slots s = (\<Sum>n | in_tree s n. mset (val (heap s n)))"

text \<open>\<open>stored s n key0\<close>: from node \<open>n\<close> the labels of a chain of children spell
  \<open>key0\<close> exactly.\<close>

inductive stored :: "RadixCache \<Rightarrow> node_ref \<Rightarrow> token list \<Rightarrow> bool" for s :: RadixCache where
  stored_nil: "stored s n []"
| stored_step:
    "key0 \<noteq> [] \<Longrightarrow> map_of (children (heap s n)) (hd key0) = Some c \<Longrightarrow>
     take (length (key (heap s c))) key0 = key (heap s c) \<Longrightarrow>
     stored s c (drop (length (key (heap s c))) key0) \<Longrightarrow> stored s n key0"

text \<open>\<open>same_tree s s'\<close>: the two caches have the same root and the same links, labels
  and values in every object; they may differ in timestamps and counters.\<close>

definition same_tree :: "RadixCache \<Rightarrow> RadixCache \<Rightarrow> bool" where
  "same_tree s s' \<longleftrightarrow>
     root_node s' = root_node s \<and>
     (\<forall>m. children (heap s' m) = children (heap s m) \<and> key (heap s' m) = key (heap s m) \<and>
          val (heap s' m) = val (heap s m))"

text \<open>\<open>up s j n\<close> follows the parent link \<open>j\<close> times.\<close>

fun up :: "RadixCache \<Rightarrow> nat \<Rightarrow> node_ref \<Rightarrow> node_ref option" where
  "up s 0 n = Some n"
| "up s (Suc j) n = (case parent (heap s n) of None \<Rightarrow> None | Some p \<Rightarrow> up s j p)"

text \<open>The shape of a tree of objects: a node and the shapes below it, in dictionary
  order. It is used to reason about the traversals.\<close>

datatype shape = Sh (sid: node_ref) (kids: "shape list")

fun shape_ok :: "RadixCache \<Rightarrow> shape \<Rightarrow> bool" where
  "shape_ok s (Sh n ts) \<longleftrightarrow>
     map snd (children (heap s n)) = map sid ts \<and> (\<forall>t\<in>set ts. shape_ok s t)"

fun ids :: "shape \<Rightarrow> node_ref list" where
  "ids (Sh n ts) = n # concat (map ids ts)"

text \<open>The leaves of a shape in the order in which \<^verbatim>\<open>_collect_leaves\<close> meets them: the
  last child first.\<close>

fun leaves_of :: "shape \<Rightarrow> node_ref list" where
  "leaves_of (Sh n ts) = (if ts = [] then [n] else concat (map leaves_of (rev ts)))"

fun height :: "shape \<Rightarrow> nat" where
  "height (Sh n ts) = Suc (fold max (map height ts) 0)"

section \<open>Basic facts about the store\<close>

lemma upd_node_simps [simp]:
  "heap (upd_node r f s) = (heap s)(r := f (heap s r))"
  "next_ref (upd_node r f s) = next_ref s"
  "clock (upd_node r f s) = clock s"
  "ticks (upd_node r f s) = ticks s"
  "root_node (upd_node r f s) = root_node s"
  "evictable_size' (upd_node r f s) = evictable_size' s"
  "disable (upd_node r f s) = disable s"
  "flag (upd_node r f s) = flag s"
  "call_counter (upd_node r f s) = call_counter s"
  "token_counter (upd_node r f s) = token_counter s"
  by (simp_all add: upd_node_def)

lemma touch_simps [simp]:
  "heap (touch r s) = (heap s)(r := (heap s r)\<lparr>last_access_time := clock s (ticks s)\<rparr>)"
  "next_ref (touch r s) = next_ref s"
  "clock (touch r s) = clock s"
  "ticks (touch r s) = Suc (ticks s)"
  "root_node (touch r s) = root_node s"
  "evictable_size' (touch r s) = evictable_size' s"
  "disable (touch r s) = disable s"
  "flag (touch r s) = flag s"
  "call_counter (touch r s) = call_counter s"
  "token_counter (touch r s) = token_counter s"
  by (simp_all add: touch_def time_time_def)

lemma new_TreeNode_simps [simp]:
  "fst (new_TreeNode s) = next_ref s"
  "heap (snd (new_TreeNode s)) =
     (heap s)(next_ref s := \<lparr>children = [], parent = None, key = [], val = [], lock_ref = 0,
                             last_access_time = clock s (ticks s), ref_counter = 0\<rparr>)"
  "next_ref (snd (new_TreeNode s)) = Suc (next_ref s)"
  "clock (snd (new_TreeNode s)) = clock s"
  "ticks (snd (new_TreeNode s)) = Suc (ticks s)"
  "root_node (snd (new_TreeNode s)) = root_node s"
  "evictable_size' (snd (new_TreeNode s)) = evictable_size' s"
  "disable (snd (new_TreeNode s)) = disable s"
  "flag (snd (new_TreeNode s)) = flag s"
  "call_counter (snd (new_TreeNode s)) = call_counter s"
  "token_counter (snd (new_TreeNode s)) = token_counter s"
  by (simp_all add: new_TreeNode_def time_time_def Let_def)

section \<open>Consequences of the tree invariant\<close>

lemma tree_inv_finite: "tree_inv s L d \<Longrightarrow> finite L"
  and tree_inv_root: "tree_inv s L d \<Longrightarrow> root_node s \<in> L"
  and tree_inv_root_parent: "tree_inv s L d \<Longrightarrow> parent (heap s (root_node s)) = None"
  and tree_inv_root_key: "tree_inv s L d \<Longrightarrow> key (heap s (root_node s)) = []"
  and tree_inv_root_val: "tree_inv s L d \<Longrightarrow> val (heap s (root_node s)) = []"
  by (simp_all add: tree_inv_def)

lemma tree_inv_alloc: "tree_inv s L d \<Longrightarrow> n \<in> L \<Longrightarrow> n < next_ref s"
  by (simp add: tree_inv_def)

lemma tree_inv_distinct: "tree_inv s L d \<Longrightarrow> n \<in> L \<Longrightarrow> distinct (map fst (children (heap s n)))"
  by (simp add: tree_inv_def)

lemma tree_inv_child:
  assumes "tree_inv s L d" "n \<in> L" "(k, c) \<in> set (children (heap s n))"
  shows "c \<in> L" "parent (heap s c) = Some n" "d n < d c" "key (heap s c) \<noteq> []"
    "hd (key (heap s c)) = k"
  using assms unfolding tree_inv_def by blast+

lemma tree_inv_parent:
  assumes "tree_inv s L d" "n \<in> L" "n \<noteq> root_node s"
  shows "\<exists>p\<in>L. parent (heap s n) = Some p \<and> (hd (key (heap s n)), n) \<in> set (children (heap s p))"
  using assms unfolding tree_inv_def by blast

lemma tree_inv_child_not_root:
  assumes "tree_inv s L d" "n \<in> L" "(k, c) \<in> set (children (heap s n))"
  shows "c \<noteq> root_node s"
  using tree_inv_child(2)[OF assms] tree_inv_root_parent[OF assms(1)] by auto

lemma tree_inv_lookup:
  assumes "tree_inv s L d" "n \<in> L"
  shows "map_of (children (heap s n)) k = Some c \<longleftrightarrow> (k, c) \<in> set (children (heap s n))"
  using tree_inv_distinct[OF assms] by simp

lemma in_tree_in_L:
  assumes "tree_inv s L d" "in_tree s n"
  shows "n \<in> L"
  using assms(2)
proof (induction rule: in_tree.induct)
  case in_tree_root
  then show ?case by (rule tree_inv_root[OF assms(1)])
next
  case (in_tree_child n k c)
  then show ?case using tree_inv_child(1)[OF assms(1)] by blast
qed

lemma in_L_in_tree:
  assumes "tree_inv s L d" "n \<in> L"
  shows "in_tree s n"
  using assms(2)
proof (induction "d n" arbitrary: n rule: less_induct)
  case less
  show ?case
  proof (cases "n = root_node s")
    case True
    then show ?thesis by (simp add: in_tree_root)
  next
    case False
    from tree_inv_parent[OF assms(1) less.prems False]
    obtain p where p: "p \<in> L" "parent (heap s n) = Some p"
      "(hd (key (heap s n)), n) \<in> set (children (heap s p))" by blast
    from tree_inv_child(3)[OF assms(1) p(1) p(3)] have "d p < d n" .
    from less.hyps[OF this p(1)] have "in_tree s p" .
    then show ?thesis using p(3) by (rule in_tree_child)
  qed
qed

lemma tree_inv_in_tree: "tree_inv s L d \<Longrightarrow> in_tree s n \<longleftrightarrow> n \<in> L"
  using in_tree_in_L in_L_in_tree by blast

lemma tree_inv_nodes: "tree_inv s L d \<Longrightarrow> {n. in_tree s n} = L"
  using tree_inv_in_tree by blast

lemma tree_invI:
  assumes "finite L" "root_node s \<in> L" "parent (heap s (root_node s)) = None"
    "key (heap s (root_node s)) = []" "val (heap s (root_node s)) = []"
    "\<And>n. n \<in> L \<Longrightarrow> n < next_ref s"
    "\<And>n. n \<in> L \<Longrightarrow> distinct (map fst (children (heap s n)))"
    "\<And>n k c. n \<in> L \<Longrightarrow> (k, c) \<in> set (children (heap s n)) \<Longrightarrow>
       c \<in> L \<and> parent (heap s c) = Some n \<and> d n < d c \<and> key (heap s c) \<noteq> [] \<and>
       hd (key (heap s c)) = k"
    "\<And>n. n \<in> L \<Longrightarrow> n \<noteq> root_node s \<Longrightarrow>
       \<exists>p\<in>L. parent (heap s n) = Some p \<and> (hd (key (heap s n)), n) \<in> set (children (heap s p))"
  shows "tree_inv s L d"
  unfolding tree_inv_def using assms by (auto simp del: map_of_eq_Some_iff)

text \<open>Only the links, the labels and the values of the nodes matter to the invariant.\<close>

lemma tree_inv_cong:
  assumes inv: "tree_inv s L d"
    and "root_node s' = root_node s" "next_ref s \<le> next_ref s'"
    and same: "\<And>n. n \<in> L \<Longrightarrow> children (heap s' n) = children (heap s n) \<and>
                  parent (heap s' n) = parent (heap s n) \<and> key (heap s' n) = key (heap s n) \<and>
                  val (heap s' n) = val (heap s n)"
  shows "tree_inv s' L d"
proof (rule tree_invI)
  show "finite L" by (rule tree_inv_finite[OF inv])
  show r: "root_node s' \<in> L" using tree_inv_root[OF inv] assms(2) by simp
  show "parent (heap s' (root_node s')) = None" "key (heap s' (root_node s')) = []"
    "val (heap s' (root_node s')) = []"
    using same[OF r] assms(2) tree_inv_root_parent[OF inv] tree_inv_root_key[OF inv]
      tree_inv_root_val[OF inv] by simp_all
next
  fix n assume n: "n \<in> L"
  show "n < next_ref s'" using tree_inv_alloc[OF inv n] assms(3) by simp
  show "distinct (map fst (children (heap s' n)))" using tree_inv_distinct[OF inv n] same[OF n] by simp
next
  fix n k c assume n: "n \<in> L" and "(k, c) \<in> set (children (heap s' n))"
  then have kc: "(k, c) \<in> set (children (heap s n))" using same[OF n] by simp
  note ch = tree_inv_child[OF inv n kc]
  show "c \<in> L \<and> parent (heap s' c) = Some n \<and> d n < d c \<and>
         key (heap s' c) \<noteq> [] \<and> hd (key (heap s' c)) = k"
    using ch same[OF ch(1)] by simp
next
  fix n assume n: "n \<in> L" "n \<noteq> root_node s'"
  then have "n \<noteq> root_node s" using assms(2) by simp
  from tree_inv_parent[OF inv n(1) this]
  obtain p where p: "p \<in> L" "parent (heap s n) = Some p"
    "(hd (key (heap s n)), n) \<in> set (children (heap s p))" by blast
  show "\<exists>p\<in>L. parent (heap s' n) = Some p \<and> (hd (key (heap s' n)), n) \<in> set (children (heap s' p))"
    using p same[OF n(1)] same[OF p(1)] by auto
qed

section \<open>The primitive mutations keep the tree invariant\<close>

subsection \<open>Splitting a child\<close>

lemma split_node_effect:
  assumes inv: "tree_inv s L d" and n: "n \<in> L"
    and kc: "(k, c) \<in> set (children (heap s n))"
    and p: "0 < p" "p < length (key (heap s c))"
  shows "\<exists>s'. split_node s (key (heap s c)) c p = Inr (next_ref s, s') \<and>
     next_ref s' = Suc (next_ref s) \<and> root_node s' = root_node s \<and>
     evictable_size' s' = evictable_size' s \<and> disable s' = disable s \<and>
     clock s' = clock s \<and> ticks s' = Suc (ticks s) \<and>
     heap s' (next_ref s) =
       \<lparr>children = [(key (heap s c) ! p, c)], parent = Some n, key = take p (key (heap s c)),
        val = take p (val (heap s c)), lock_ref = lock_ref (heap s c),
        last_access_time = clock s (ticks s), ref_counter = 0\<rparr> \<and>
     heap s' c = (heap s c)\<lparr>parent := Some (next_ref s), key := drop p (key (heap s c)),
                             val := drop p (val (heap s c))\<rparr> \<and>
     heap s' n = (heap s n)\<lparr>children := AList.update k (next_ref s) (children (heap s n))\<rparr> \<and>
     (\<forall>m. m \<noteq> next_ref s \<and> m \<noteq> c \<and> m \<noteq> n \<longrightarrow> heap s' m = heap s m)"
proof -
  note ch = tree_inv_child[OF inv n kc]
  have cu: "c \<noteq> next_ref s" using tree_inv_alloc[OF inv ch(1)] by simp
  have nu: "n \<noteq> next_ref s" using tree_inv_alloc[OF inv n] by simp
  have nc: "n \<noteq> c" using ch(3) by auto
  obtain k0 ks where key: "key (heap s c) = k0 # ks" using ch(4) by (cases "key (heap s c)") auto
  have k0: "k0 = k" using ch(5) key by simp
  have dr: "drop p (key (heap s c)) = (key (heap s c) ! p) # drop (Suc p) (key (heap s c))"
    using p(2) by (simp add: Cons_nth_drop_Suc)
  obtain p' where p': "p = Suc p'" using p(1) by (cases p) auto
  have tk: "take p (key (heap s c)) = k # take p' ks" using key k0 p' by simp
  show ?thesis
    unfolding split_node_def
    using cu nu nc ch(2) dr tk
    by (simp add: Let_def split_beta fun_upd_twist)
qed

lemma set_alist_update:
  "distinct (map fst al) \<Longrightarrow>
   set (AList.update k v al) = insert (k, v) {x \<in> set al. fst x \<noteq> k}"
  by (induction al) (auto simp: rev_image_eqI)

lemma set_alist_delete: "set (AList.delete k al) = {x \<in> set al. fst x \<noteq> k}"
  by (auto simp: AList.delete_eq)

lemma distinct_fst_unique:
  "distinct (map fst al) \<Longrightarrow> (k, v) \<in> set al \<Longrightarrow> (k, v') \<in> set al \<Longrightarrow> v = v'"
  by (meson eq_key_imp_eq_value)

lemma split_node_tree_inv:
  assumes inv: "tree_inv s L d" and n: "n \<in> L"
    and kc: "(k, c) \<in> set (children (heap s n))"
    and p: "0 < p" "p < length (key (heap s c))"
    and sp: "split_node s (key (heap s c)) c p = Inr (u, s')"
  shows "tree_inv s' (insert u L) (\<lambda>m. if m = u then 2 * d c - 1 else 2 * d m)"
proof -
  let ?d = "\<lambda>m. if m = u then 2 * d c - 1 else 2 * d m"
  let ?cs = "children (heap s n)"
  from split_node_effect[OF inv n kc p] sp
  have u: "u = next_ref s"
    and nx: "next_ref s' = Suc (next_ref s)" and rt: "root_node s' = root_node s"
    and Hu: "heap s' u = \<lparr>children = [(key (heap s c) ! p, c)], parent = Some n,
          key = take p (key (heap s c)), val = take p (val (heap s c)),
          lock_ref = lock_ref (heap s c), last_access_time = clock s (ticks s), ref_counter = 0\<rparr>"
    and Hc: "heap s' c = (heap s c)\<lparr>parent := Some u, key := drop p (key (heap s c)),
                             val := drop p (val (heap s c))\<rparr>"
    and Hn: "heap s' n = (heap s n)\<lparr>children := AList.update k u ?cs\<rparr>"
    and Ho: "\<And>m. m \<noteq> u \<Longrightarrow> m \<noteq> c \<Longrightarrow> m \<noteq> n \<Longrightarrow> heap s' m = heap s m"
    by auto
  note ch = tree_inv_child[OF inv n kc]
  have uL: "u \<notin> L" using tree_inv_alloc[OF inv] u by auto
  have cu: "c \<noteq> u" and nu: "n \<noteq> u" using uL ch(1) n by auto
  have nc: "n \<noteq> c" using ch(3) by auto
  have c_root: "c \<noteq> root_node s" using ch(2) tree_inv_root_parent[OF inv] by auto
  have dist: "distinct (map fst ?cs)" by (rule tree_inv_distinct[OF inv n])
  have keep: "parent (heap s' m) = parent (heap s m) \<and> key (heap s' m) = key (heap s m) \<and>
      val (heap s' m) = val (heap s m)" if "m \<in> L" "m \<noteq> c" for m
  proof -
    have "m \<noteq> u" using that uL by auto
    then show ?thesis using that Hn Ho[of m] by (cases "m = n") auto
  qed
  have keepc: "children (heap s' m) = children (heap s m)" if "m \<in> L" "m \<noteq> n" for m
  proof -
    have "m \<noteq> u" using that uL by auto
    then show ?thesis using that Hc Ho[of m] by (cases "m = c") auto
  qed
  have hdk: "hd (take p (key (heap s c))) = k" using ch(4,5) p(1) by simp
  show ?thesis
  proof (rule tree_invI)
    show "finite (insert u L)" using tree_inv_finite[OF inv] by simp
    show "root_node s' \<in> insert u L" using tree_inv_root[OF inv] rt by simp
    show "parent (heap s' (root_node s')) = None" "key (heap s' (root_node s')) = []"
      "val (heap s' (root_node s')) = []"
      using keep[OF tree_inv_root[OF inv]] c_root rt tree_inv_root_parent[OF inv]
        tree_inv_root_key[OF inv] tree_inv_root_val[OF inv] by auto
  next
    fix m assume "m \<in> insert u L"
    then show "m < next_ref s'" using tree_inv_alloc[OF inv] u nx by (auto simp: less_Suc_eq)
  next
    fix m assume m: "m \<in> insert u L"
    show "distinct (map fst (children (heap s' m)))"
    proof (cases "m = u")
      case True
      then show ?thesis using Hu by simp
    next
      case False
      then have mL: "m \<in> L" using m by simp
      show ?thesis
      proof (cases "m = n")
        case True
        then show ?thesis using Hn dist by (simp add: AList.distinct_update)
      next
        case False
        then show ?thesis using keepc[OF mL] tree_inv_distinct[OF inv mL] by simp
      qed
    qed
  next
    fix m k' c' assume m: "m \<in> insert u L" and e: "(k', c') \<in> set (children (heap s' m))"
    show "c' \<in> insert u L \<and> parent (heap s' c') = Some m \<and> ?d m < ?d c' \<and>
          key (heap s' c') \<noteq> [] \<and> hd (key (heap s' c')) = k'"
    proof -
      consider (a) "m = u" | (b) "m = n" | (c) "m = c" | (o) "m \<in> L" "m \<noteq> n" "m \<noteq> c"
        using m by blast
      then show ?thesis
      proof cases
        case a
        then have "k' = key (heap s c) ! p" "c' = c" using e Hu by auto
        then show ?thesis using a cu Hc ch(1,3) p(2) by (auto simp: hd_drop_conv_nth)
      next
        case b
        from e b Hn have "(k', c') \<in> set (AList.update k u ?cs)" by simp
        then have "(k', c') = (k, u) \<or> ((k', c') \<in> set ?cs \<and> k' \<noteq> k)"
          using set_alist_update[OF dist] by auto
        then show ?thesis
        proof
          assume "(k', c') = (k, u)"
          then show ?thesis using b nu Hu hdk ch(3,4) p(1) by auto
        next
          assume h: "(k', c') \<in> set ?cs \<and> k' \<noteq> k"
          note ch' = tree_inv_child[OF inv n conjunct1[OF h]]
          have "c' \<noteq> c" using h ch'(5) ch(5) by auto
          moreover have "c' \<noteq> u" using ch'(1) uL by auto
          ultimately show ?thesis using keep[OF ch'(1)] ch' b nu by auto
        qed
      next
        case c
        then have e': "(k', c') \<in> set (children (heap s c))" using e Hc by simp
        note ch' = tree_inv_child[OF inv ch(1) e']
        have "c' \<noteq> c" using ch'(3) by auto
        moreover have "c' \<noteq> u" using ch'(1) uL by auto
        ultimately show ?thesis using keep[OF ch'(1)] ch' c cu by auto
      next
        case o
        then have e': "(k', c') \<in> set (children (heap s m))" using e keepc by simp
        note ch' = tree_inv_child[OF inv o(1) e']
        have "c' \<noteq> c" using ch'(2) ch(2) o(2) by auto
        moreover have "c' \<noteq> u" "m \<noteq> u" using ch'(1) o(1) uL by auto
        ultimately show ?thesis using keep[OF ch'(1)] ch' by auto
      qed
    qed
  next
    fix m assume m: "m \<in> insert u L" and mr: "m \<noteq> root_node s'"
    show "\<exists>q\<in>insert u L. parent (heap s' m) = Some q \<and>
            (hd (key (heap s' m)), m) \<in> set (children (heap s' q))"
    proof -
      consider (a) "m = u" | (c) "m = c" | (o) "m \<in> L" "m \<noteq> c"
        using m by blast
      then show ?thesis
      proof cases
        case a
        have "(k, u) \<in> set (AList.update k u ?cs)" using set_alist_update[OF dist] by simp
        then show ?thesis using a Hu Hn hdk n by auto
      next
        case c
        then show ?thesis using Hc Hu p(2) by (auto simp: hd_drop_conv_nth)
      next
        case o
        from tree_inv_parent[OF inv o(1)] mr rt
        obtain q where q: "q \<in> L" "parent (heap s m) = Some q"
          "(hd (key (heap s m)), m) \<in> set (children (heap s q))" by auto
        show ?thesis
        proof (cases "q = n")
          case True
          have "hd (key (heap s m)) \<noteq> k"
            using distinct_fst_unique[OF dist _ kc, of m] q(3) True o(2) by auto
          then have "(hd (key (heap s m)), m) \<in> set (AList.update k u ?cs)"
            using set_alist_update[OF dist] q(3) True by auto
          then show ?thesis using keep[OF o] q True Hn by auto
        next
          case False
          then show ?thesis using keep[OF o] keepc[OF q(1) False] q by auto
        qed
      qed
    qed
  qed
qed

subsection \<open>Hanging a new leaf under a node\<close>

lemma new_leaf_effect:
  assumes "node < next_ref s"
  shows "next_ref (new_leaf s node ky vl) = Suc (next_ref s)"
    "root_node (new_leaf s node ky vl) = root_node s"
    "evictable_size' (new_leaf s node ky vl) = evictable_size' s + int (length vl)"
    "disable (new_leaf s node ky vl) = disable s"
    "clock (new_leaf s node ky vl) = clock s"
    "ticks (new_leaf s node ky vl) = Suc (ticks s)"
    "heap (new_leaf s node ky vl) (next_ref s) =
       \<lparr>children = [], parent = Some node, key = ky, val = vl, lock_ref = 0,
        last_access_time = clock s (ticks s), ref_counter = 0\<rparr>"
    "heap (new_leaf s node ky vl) node =
       (heap s node)\<lparr>children := AList.update (hd ky) (next_ref s) (children (heap s node))\<rparr>"
    "\<And>m. m \<noteq> next_ref s \<Longrightarrow> m \<noteq> node \<Longrightarrow> heap (new_leaf s node ky vl) m = heap s m"
  using assms by (simp_all add: new_leaf_def Let_def split_beta)

lemma new_leaf_tree_inv:
  assumes inv: "tree_inv s L d" and n: "node \<in> L" and k: "key0 \<noteq> []"
    and fresh: "map_of (children (heap s node)) (hd key0) = None"
  shows "tree_inv (new_leaf s node key0 value) (insert (next_ref s) L)
           (d(next_ref s := Suc (d node)))"
proof -
  let ?u = "next_ref s" and ?s' = "new_leaf s node key0 value"
  let ?cs = "children (heap s node)"
  let ?d = "d(?u := Suc (d node))"
  have nlt: "node < ?u" by (rule tree_inv_alloc[OF inv n])
  note eff = new_leaf_effect[OF nlt, where ky = key0 and vl = "value"]
  have uL: "?u \<notin> L" using tree_inv_alloc[OF inv] by auto
  have nu: "node \<noteq> ?u" using nlt by simp
  have dist: "distinct (map fst ?cs)" by (rule tree_inv_distinct[OF inv n])
  have nokey: "\<And>c. (hd key0, c) \<notin> set ?cs" using fresh by (metis map_of_eq_None_iff fst_conv image_eqI)
  have keep: "parent (heap ?s' m) = parent (heap s m) \<and> key (heap ?s' m) = key (heap s m) \<and>
      val (heap ?s' m) = val (heap s m)" if "m \<in> L" for m
  proof -
    have "m \<noteq> ?u" using that uL by auto
    then show ?thesis using eff(8) eff(9)[of m] by (cases "m = node") auto
  qed
  have keepc: "children (heap ?s' m) = children (heap s m)" if "m \<in> L" "m \<noteq> node" for m
  proof -
    have "m \<noteq> ?u" using that uL by auto
    then show ?thesis using that eff(9)[of m] by auto
  qed
  have setcs: "set (children (heap ?s' node)) = insert (hd key0, ?u) (set ?cs)"
    using eff(8) set_alist_update[OF dist, of "hd key0" ?u] nokey by auto
  show ?thesis
  proof (rule tree_invI)
    show "finite (insert ?u L)" using tree_inv_finite[OF inv] by simp
    show "root_node ?s' \<in> insert ?u L" using tree_inv_root[OF inv] eff(2) by simp
    show "parent (heap ?s' (root_node ?s')) = None" "key (heap ?s' (root_node ?s')) = []"
      "val (heap ?s' (root_node ?s')) = []"
      using keep[OF tree_inv_root[OF inv]] eff(2) tree_inv_root_parent[OF inv]
        tree_inv_root_key[OF inv] tree_inv_root_val[OF inv] by auto
  next
    fix m assume "m \<in> insert ?u L"
    then show "m < next_ref ?s'" using tree_inv_alloc[OF inv] eff(1) by (auto simp: less_Suc_eq)
  next
    fix m assume m: "m \<in> insert ?u L"
    show "distinct (map fst (children (heap ?s' m)))"
    proof (cases "m = ?u")
      case True
      then show ?thesis using eff(7) by simp
    next
      case False
      then have mL: "m \<in> L" using m by simp
      show ?thesis
      proof (cases "m = node")
        case True
        then show ?thesis using eff(8) dist by (simp add: AList.distinct_update)
      next
        case False
        then show ?thesis using keepc[OF mL] tree_inv_distinct[OF inv mL] by simp
      qed
    qed
  next
    fix m k' c' assume m: "m \<in> insert ?u L" and e: "(k', c') \<in> set (children (heap ?s' m))"
    show "c' \<in> insert ?u L \<and> parent (heap ?s' c') = Some m \<and> ?d m < ?d c' \<and>
          key (heap ?s' c') \<noteq> [] \<and> hd (key (heap ?s' c')) = k'"
    proof -
      have mu: "m \<noteq> ?u" using e eff(7) by auto
      then have mL: "m \<in> L" using m by simp
      show ?thesis
      proof (cases "(k', c') = (hd key0, ?u)")
        case True
        have "m = node"
        proof (rule ccontr)
          assume "m \<noteq> node"
          then have "(k', c') \<in> set (children (heap s m))" using e keepc[OF mL] by simp
          from tree_inv_child(1)[OF inv mL this] True uL show False by simp
        qed
        then show ?thesis using True eff(7) k nu by auto
      next
        case False
        then have e': "(k', c') \<in> set (children (heap s m))"
          using e setcs keepc[OF mL] by (cases "m = node") auto
        note ch' = tree_inv_child[OF inv mL e']
        have "c' \<noteq> ?u" using ch'(1) uL by auto
        then show ?thesis using keep[OF ch'(1)] ch' mu by auto
      qed
    qed
  next
    fix m assume m: "m \<in> insert ?u L" and mr: "m \<noteq> root_node ?s'"
    show "\<exists>q\<in>insert ?u L. parent (heap ?s' m) = Some q \<and>
            (hd (key (heap ?s' m)), m) \<in> set (children (heap ?s' q))"
    proof (cases "m = ?u")
      case True
      then show ?thesis using eff(7) setcs n by auto
    next
      case False
      then have mL: "m \<in> L" using m by simp
      from tree_inv_parent[OF inv mL] mr eff(2)
      obtain q where q: "q \<in> L" "parent (heap s m) = Some q"
        "(hd (key (heap s m)), m) \<in> set (children (heap s q))" by auto
      show ?thesis using keep[OF mL] keepc[OF q(1)] q setcs by (cases "q = node") auto
    qed
  qed
qed

subsection \<open>Deleting a leaf\<close>

lemma items_loop_finds:
  "(k, x) \<in> set cs \<Longrightarrow> (\<And>k'. (k', x) \<in> set cs \<Longrightarrow> k' = k) \<Longrightarrow> items_loop cs x acc = Some k"
proof (induction cs arbitrary: acc)
  case Nil
  then show ?case by simp
next
  case (Cons a cs)
  obtain k' v where a: "a = (k', v)" by (cases a)
  show ?case
  proof (cases "v = x")
    case True
    then show ?thesis using a Cons.prems(2)[of k'] by simp
  next
    case False
    then have in_cs: "(k, x) \<in> set cs" using Cons.prems(1) a by auto
    have uniq: "k'' = k" if "(k'', x) \<in> set cs" for k''
      by (rule Cons.prems(2)) (use that in simp)
    have "items_loop cs x (Some k') = Some k" by (rule Cons.IH[OF in_cs uniq])
    then show ?thesis using a False by simp
  qed
qed

lemma delete_leaf_effect:
  assumes inv: "tree_inv s L d" and x: "x \<in> L" "x \<noteq> root_node s"
  shows "\<exists>p s'. parent (heap s x) = Some p \<and> p \<in> L \<and> p \<noteq> x \<and>
      (hd (key (heap s x)), x) \<in> set (children (heap s p)) \<and>
      delete_leaf s x = Inr s' \<and>
      heap s' = (heap s)(p := (heap s p)\<lparr>children :=
                   AList.delete (hd (key (heap s x))) (children (heap s p))\<rparr>) \<and>
      evictable_size' s' = evictable_size' s - int (length (key (heap s x))) \<and>
      next_ref s' = next_ref s \<and> root_node s' = root_node s \<and> disable s' = disable s \<and>
      clock s' = clock s \<and> ticks s' = ticks s \<and> token_counter s' = token_counter s"
proof -
  from tree_inv_parent[OF inv x]
  obtain p where p: "p \<in> L" "parent (heap s x) = Some p"
    "(hd (key (heap s x)), x) \<in> set (children (heap s p))" by auto
  note ch = tree_inv_child[OF inv p(1) p(3)]
  have px: "p \<noteq> x" using ch(3) by auto
  have "items_loop (children (heap s p)) x None = Some (hd (key (heap s x)))"
  proof (rule items_loop_finds[OF p(3)])
    fix k' assume "(k', x) \<in> set (children (heap s p))"
    from tree_inv_child(5)[OF inv p(1) this] show "k' = hd (key (heap s x))" by simp
  qed
  then show ?thesis using p px by (simp add: delete_leaf_def Let_def)
qed

lemma delete_leaf_tree_inv:
  assumes inv: "tree_inv s L d" and x: "x \<in> L" "x \<noteq> root_node s"
    and leaf: "children (heap s x) = []"
    and del: "delete_leaf s x = Inr s'"
  shows "tree_inv s' (L - {x}) d"
proof -
  from delete_leaf_effect[OF inv x] del
  obtain p where p: "parent (heap s x) = Some p" "p \<in> L" "p \<noteq> x"
    "(hd (key (heap s x)), x) \<in> set (children (heap s p))"
    and H: "heap s' = (heap s)(p := (heap s p)\<lparr>children :=
                   AList.delete (hd (key (heap s x))) (children (heap s p))\<rparr>)"
    and nx: "next_ref s' = next_ref s" and rt: "root_node s' = root_node s"
    by auto
  let ?k = "hd (key (heap s x))"
  have dist: "distinct (map fst (children (heap s p)))" by (rule tree_inv_distinct[OF inv p(2)])
  have keep: "parent (heap s' m) = parent (heap s m) \<and> key (heap s' m) = key (heap s m) \<and>
      val (heap s' m) = val (heap s m)" for m
    using H by auto
  have cs: "set (children (heap s' m)) = set (children (heap s m)) - {(?k, x)}" if "m \<in> L" for m
  proof (cases "m = p")
    case True
    have 1: "children (heap s' p) = AList.delete ?k (children (heap s p))" using H by simp
    have 2: "c = x" if "(?k, c) \<in> set (children (heap s p))" for c
      using distinct_fst_unique[OF dist that p(4)] .
    have "e \<in> set (children (heap s p)) \<and> fst e \<noteq> ?k \<longleftrightarrow>
          e \<in> set (children (heap s p)) \<and> e \<noteq> (?k, x)" for e
      using 2[of "snd e"] by (cases e) auto
    then have "{e \<in> set (children (heap s p)). fst e \<noteq> ?k} = set (children (heap s p)) - {(?k, x)}"
      by blast
    then show ?thesis using True 1 by (simp add: set_alist_delete)
  next
    case False
    have "(?k, x) \<notin> set (children (heap s m))"
      using tree_inv_child(2)[OF inv that, of ?k x] p(1) False by auto
    moreover have "children (heap s' m) = children (heap s m)" using False H by simp
    ultimately show ?thesis by simp
  qed
  show ?thesis
  proof (rule tree_invI)
    show "finite (L - {x})" using tree_inv_finite[OF inv] by simp
    show "root_node s' \<in> L - {x}" using tree_inv_root[OF inv] rt x(2) by simp
    show "parent (heap s' (root_node s')) = None" "key (heap s' (root_node s')) = []"
      "val (heap s' (root_node s')) = []"
      using keep rt tree_inv_root_parent[OF inv]
        tree_inv_root_key[OF inv] tree_inv_root_val[OF inv] by auto
  next
    fix m assume "m \<in> L - {x}"
    then show "m < next_ref s'" using tree_inv_alloc[OF inv] nx by auto
  next
    fix m assume m: "m \<in> L - {x}"
    then have mL: "m \<in> L" by simp
    show "distinct (map fst (children (heap s' m)))"
      using tree_inv_distinct[OF inv mL] H by (cases "m = p") (auto simp: AList.distinct_delete)
  next
    fix m k' c' assume m: "m \<in> L - {x}" and e: "(k', c') \<in> set (children (heap s' m))"
    then have mL: "m \<in> L" by simp
    from e cs[OF mL] have e': "(k', c') \<in> set (children (heap s m))" and ne: "(k', c') \<noteq> (?k, x)"
      by auto
    note ch' = tree_inv_child[OF inv mL e']
    have "c' \<noteq> x" using ne ch'(5) by auto
    then show "c' \<in> L - {x} \<and> parent (heap s' c') = Some m \<and> d m < d c' \<and>
          key (heap s' c') \<noteq> [] \<and> hd (key (heap s' c')) = k'"
      using ch' keep by auto
  next
    fix m assume m: "m \<in> L - {x}" and mr: "m \<noteq> root_node s'"
    then have mL: "m \<in> L" and mx: "m \<noteq> x" by auto
    from tree_inv_parent[OF inv mL] mr rt
    obtain q where q: "q \<in> L" "parent (heap s m) = Some q"
      "(hd (key (heap s m)), m) \<in> set (children (heap s q))" by auto
    have qx: "q \<in> L - {x}" using q(1,3) leaf by auto
    have kp: "parent (heap s' m) = Some q" "key (heap s' m) = key (heap s m)"
      using q(2) keep[of m] by simp_all
    have "(hd (key (heap s m)), m) \<in> set (children (heap s' q))"
      using q(3) cs[OF q(1)] mx by simp
    then show "\<exists>q\<in>L - {x}. parent (heap s' m) = Some q \<and>
            (hd (key (heap s' m)), m) \<in> set (children (heap s' q))"
      using qx kp by (intro bexI[of _ q]) simp_all
  qed
qed

section \<open>The shape of a well-formed tree\<close>

lemma up_add: "up s (i + j) m = (case up s i m of None \<Rightarrow> None | Some a \<Rightarrow> up s j a)"
  by (induction i arbitrary: m) (auto split: option.splits)

lemma up_in_L:
  assumes inv: "tree_inv s L d"
  shows "m \<in> L \<Longrightarrow> up s j m = Some a \<Longrightarrow> a \<in> L \<and> d a \<le> d m"
proof (induction j arbitrary: m)
  case 0
  then show ?case by simp
next
  case (Suc j)
  from Suc.prems(2) obtain q where q: "parent (heap s m) = Some q" "up s j q = Some a"
    by (auto split: option.splits)
  have "m \<noteq> root_node s" using q(1) tree_inv_root_parent[OF inv] by auto
  from tree_inv_parent[OF inv Suc.prems(1) this] q(1)
  have qL: "q \<in> L" and e: "(hd (key (heap s m)), m) \<in> set (children (heap s q))" by auto
  from tree_inv_child(3)[OF inv qL e] have "d q < d m" .
  with Suc.IH[OF qL q(2)] show ?case by simp
qed

lemma child_refs_distinct:
  assumes inv: "tree_inv s L d" and n: "n \<in> L"
  shows "distinct (map snd (children (heap s n)))"
proof -
  have "inj_on snd (set (children (heap s n)))"
  proof (rule inj_onI)
    fix a b assume a: "a \<in> set (children (heap s n))" and b: "b \<in> set (children (heap s n))"
      and eq: "snd a = snd b"
    obtain k c where 1: "a = (k, c)" by (cases a)
    obtain k' c' where 2: "b = (k', c')" by (cases b)
    from tree_inv_child(5)[OF inv n a[unfolded 1]] tree_inv_child(5)[OF inv n b[unfolded 2]] eq 1 2
    show "a = b" by simp
  qed
  moreover have "distinct (children (heap s n))"
    using tree_inv_distinct[OF inv n] by (rule distinct_map[THEN iffD1, THEN conjunct1])
  ultimately show ?thesis by (simp add: distinct_map)
qed

lemma shape_exists_aux:
  assumes inv: "tree_inv s L d"
  shows "n \<in> L \<Longrightarrow> \<exists>t. sid t = n \<and> shape_ok s t \<and> distinct (ids t) \<and> set (ids t) \<subseteq> L \<and>
           (\<forall>m\<in>set (ids t). \<exists>j. up s j m = Some n)"
proof (induction "Max (d ` L) - d n" arbitrary: n rule: less_induct)
  case less
  let ?cs = "map snd (children (heap s n))"
  let ?P = "\<lambda>c t. sid t = c \<and> shape_ok s t \<and> distinct (ids t) \<and> set (ids t) \<subseteq> L \<and>
           (\<forall>m\<in>set (ids t). \<exists>j. up s j m = Some c)"
  have fin: "finite (d ` L)" using tree_inv_finite[OF inv] by simp
  have child: "c \<in> L \<and> parent (heap s c) = Some n \<and> d n < d c" if "c \<in> set ?cs" for c
  proof -
    from that obtain k where "(k, c) \<in> set (children (heap s n))" by auto
    from tree_inv_child(1-3)[OF inv less.prems this] show ?thesis by simp
  qed
  have "\<forall>c\<in>set ?cs. \<exists>t. ?P c t"
  proof
    fix c assume c: "c \<in> set ?cs"
    have "d c \<le> Max (d ` L)" using child[OF c] fin by simp
    then have "Max (d ` L) - d c < Max (d ` L) - d n" using child[OF c] by arith
    from less.hyps[OF this] child[OF c] show "\<exists>t. ?P c t" by simp
  qed
  then obtain f where f: "\<And>c. c \<in> set ?cs \<Longrightarrow> ?P c (f c)" using bchoice[of "set ?cs" ?P] by blast
  let ?ts = "map f ?cs"
  have sid_ts: "map sid ?ts = ?cs" using f by (simp add: map_idI)
  have ok: "shape_ok s (Sh n ?ts)" using sid_ts f by auto
  have deeper: "d n < d m" if "c \<in> set ?cs" "m \<in> set (ids (f c))" for c m
  proof -
    from f[OF that(1)] that(2) obtain j where "up s j m = Some c" "m \<in> L" by blast
    from up_in_L[OF inv this(2,1)] child[OF that(1)] show ?thesis by simp
  qed
  have disj: "set (ids (f c1)) \<inter> set (ids (f c2)) = {}"
    if c: "c1 \<in> set ?cs" "c2 \<in> set ?cs" "c1 \<noteq> c2" for c1 c2
  proof (rule ccontr)
    assume "set (ids (f c1)) \<inter> set (ids (f c2)) \<noteq> {}"
    then obtain m where m: "m \<in> set (ids (f c1))" "m \<in> set (ids (f c2))" by auto
    from f[OF c(1)] f[OF c(2)] m obtain j1 j2 where
      j: "up s j1 m = Some c1" "up s j2 m = Some c2" by blast
    have no: False if le: "i \<le> j" and a: "up s i m = Some a" and b: "up s j m = Some b"
      and ab: "a \<in> set ?cs" "b \<in> set ?cs" "a \<noteq> b" for i j a b
    proof -
      have "up s (i + (j - i)) m = up s (j - i) a" using a by (simp add: up_add)
      then have ba: "up s (j - i) a = Some b" using le b by simp
      then obtain e where e: "j - i = Suc e" using ab(3) by (cases "j - i") auto
      then have "up s e n = Some b" using ba child[OF ab(1)] by simp
      from up_in_L[OF inv less.prems this] child[OF ab(2)] show False by simp
    qed
    show False
    proof (cases "j1 \<le> j2")
      case True
      then show ?thesis using no[OF _ j(1) j(2)] c by simp
    next
      case False
      then have "j2 \<le> j1" by simp
      then show ?thesis using no[OF _ j(2) j(1)] c by auto
    qed
  qed
  have hd_ids: "hd (ids (f c)) = c" if "c \<in> set ?cs" for c
    using f[OF that] by (cases "f c") auto
  have dist_concat: "distinct (concat (map ids ?ts))"
  proof (rule distinct_concat)
    have inj: "inj_on (\<lambda>c. ids (f c)) (set ?cs)"
      by (rule inj_onI) (metis hd_ids)
    have d1: "distinct ?cs" by (rule child_refs_distinct[OF inv less.prems])
    have "distinct (map (\<lambda>c. ids (f c)) ?cs)"
      using d1 inj by (rule distinct_map[THEN iffD2, OF conjI])
    then show "distinct (map ids ?ts)" by (simp only: map_map comp_def)
  next
    fix ys assume "ys \<in> set (map ids ?ts)"
    then show "distinct ys" using f by auto
  next
    fix ys zs assume a: "ys \<in> set (map ids ?ts)" "zs \<in> set (map ids ?ts)" "ys \<noteq> zs"
    from a(1) obtain c1 where c1: "c1 \<in> set ?cs" "ys = ids (f c1)" by (auto simp only: set_map)
    from a(2) obtain c2 where c2: "c2 \<in> set ?cs" "zs = ids (f c2)" by (auto simp only: set_map)
    have "c1 \<noteq> c2" using a(3) c1(2) c2(2) by auto
    then show "set ys \<inter> set zs = {}" using disj[OF c1(1) c2(1)] c1(2) c2(2) by simp
  qed
  have "n \<notin> set (concat (map ids ?ts))" using deeper by auto
  then have dist: "distinct (ids (Sh n ?ts))" using dist_concat by simp
  have sub: "set (ids (Sh n ?ts)) \<subseteq> L" using less.prems f by auto
  have anc: "\<exists>j. up s j m = Some n" if "m \<in> set (ids (Sh n ?ts))" for m
  proof (cases "m = n")
    case True
    then have "up s 0 m = Some n" by simp
    then show ?thesis by blast
  next
    case False
    with that obtain c where c: "c \<in> set ?cs" "m \<in> set (ids (f c))" by auto
    with f[OF c(1)] obtain j where "up s j m = Some c" by blast
    moreover have "up s (j + 1) m = (case up s j m of None \<Rightarrow> None | Some a \<Rightarrow> up s 1 a)"
      by (rule up_add)
    ultimately have "up s (j + 1) m = Some n" using child[OF c(1)] by simp
    then show ?thesis by blast
  qed
  show ?case
    by (rule exI[of _ "Sh n ?ts"]) (use ok dist sub anc in simp)
qed

lemma sid_in_ids: "sid t \<in> set (ids t)"
  by (cases t) simp

lemma shape_closed:
  "shape_ok s t \<Longrightarrow> m \<in> set (ids t) \<Longrightarrow> (k, c) \<in> set (children (heap s m)) \<Longrightarrow> c \<in> set (ids t)"
proof (induction t)
  case (Sh n ts)
  show ?case
  proof (cases "m = n")
    case True
    then have "c \<in> set (map sid ts)" using Sh.prems by (metis shape_ok.simps image_eqI set_map snd_conv)
    then obtain t where "t \<in> set ts" "sid t = c" by auto
    then have "c \<in> set (ids t)" using sid_in_ids[of t] by simp
    then show ?thesis using \<open>t \<in> set ts\<close> by auto
  next
    case False
    with Sh.prems obtain t where t: "t \<in> set ts" "m \<in> set (ids t)" by auto
    from Sh.IH[OF t(1) _ t(2) Sh.prems(3)] Sh.prems(1) t(1) have "c \<in> set (ids t)" by simp
    then show ?thesis using t(1) by auto
  qed
qed

text \<open>A well-formed tree has a shape that lists its nodes once each.\<close>

lemma shape_exists:
  assumes inv: "tree_inv s L d"
  shows "\<exists>t. sid t = root_node s \<and> shape_ok s t \<and> distinct (ids t) \<and> set (ids t) = L"
proof -
  from shape_exists_aux[OF inv tree_inv_root[OF inv]]
  obtain t where t: "sid t = root_node s" "shape_ok s t" "distinct (ids t)" "set (ids t) \<subseteq> L"
    by blast
  have "m \<in> set (ids t)" if "in_tree s m" for m
    using that
  proof (induction rule: in_tree.induct)
    case in_tree_root
    then show ?case using t(1) sid_in_ids[of t] by simp
  next
    case (in_tree_child n k c)
    then show ?case using shape_closed[OF t(2)] by blast
  qed
  then have "L \<subseteq> set (ids t)" using in_L_in_tree[OF inv] by blast
  with t show ?thesis by blast
qed

section \<open>The traversals on a shape\<close>

subsection \<open>\<^verbatim>\<open>_collect_leaves\<close>\<close>

lemma collect_leaves_loop_shape:
  "(\<forall>t\<in>set ts. shape_ok s t) \<Longrightarrow>
   collect_leaves_loop fuel s (map sid ts) ret =
     (if sum_list (map (length \<circ> ids) ts) < fuel
      then Some (ret @ concat (map leaves_of (rev ts))) else None)"
proof (induction fuel arbitrary: ts ret)
  case 0
  then show ?case by simp
next
  case (Suc fuel)
  show ?case
  proof (cases ts rule: rev_cases)
    case Nil
    then show ?thesis by simp
  next
    case (snoc ts' t)
    obtain n ks where t: "t = Sh n ks" by (cases t)
    have okt: "map snd (children (heap s n)) = map sid ks" "\<forall>t\<in>set ks. shape_ok s t"
      and ok': "\<forall>t\<in>set ts'. shape_ok s t"
      using Suc.prems snoc t by auto
    have leaf: "children (heap s n) = [] \<longleftrightarrow> ks = []"
      using okt(1) by (metis map_is_Nil_conv)
    show ?thesis
    proof (cases "ks = []")
      case True
      then show ?thesis using snoc t leaf Suc.IH[OF ok', of "ret @ [n]"] by simp
    next
      case False
      have ok2: "\<forall>t\<in>set (ts' @ ks). shape_ok s t" using ok' okt(2) by auto
      have "collect_leaves_loop (Suc fuel) s (map sid ts) ret =
            collect_leaves_loop fuel s (map sid (ts' @ ks)) ret"
        using snoc t leaf False okt(1) by simp
      also have "\<dots> = (if sum_list (map (length \<circ> ids) (ts' @ ks)) < fuel
          then Some (ret @ concat (map leaves_of (rev (ts' @ ks)))) else None)"
        by (rule Suc.IH[OF ok2])
      finally show ?thesis using snoc t False by (simp add: length_concat comp_def)
    qed
  qed
qed

lemma leaves_of_mset:
  "shape_ok s t \<Longrightarrow>
   mset (leaves_of t) = filter_mset (\<lambda>m. children (heap s m) = []) (mset (ids t))"
proof (induction t)
  case (Sh n ts)
  have leaf: "children (heap s n) = [] \<longleftrightarrow> ts = []"
    using Sh.prems by (metis shape_ok.simps map_is_Nil_conv)
  show ?case
  proof (cases "ts = []")
    case True
    then show ?thesis using leaf by simp
  next
    case False
    have "mset (concat (map leaves_of (rev ts))) = (\<Sum>t\<leftarrow>ts. mset (leaves_of t))"
      by (simp add: mset_concat rev_map[symmetric] comp_def)
    also have "\<dots> = (\<Sum>t\<leftarrow>ts. filter_mset (\<lambda>m. children (heap s m) = []) (mset (ids t)))"
      using Sh.IH Sh.prems by (intro arg_cong[where f = sum_list] map_cong) auto
    also have "\<dots> = filter_mset (\<lambda>m. children (heap s m) = []) (mset (concat (map ids ts)))"
      by (induction ts) auto
    finally show ?thesis using False leaf by simp
  qed
qed

lemma leaves_of_set:
  "shape_ok s t \<Longrightarrow> set (leaves_of t) = {m \<in> set (ids t). children (heap s m) = []}"
  using leaves_of_mset[of s t] by (metis set_mset_filter set_mset_mset)

lemma leaves_of_distinct:
  assumes "shape_ok s t" "distinct (ids t)"
  shows "distinct (leaves_of t)"
proof -
  have "count (mset (leaves_of t)) a \<le> 1" for a
    using leaves_of_mset[OF assms(1)] assms(2)
    by (simp add: distinct_count_atmost_1)
  then show ?thesis by (simp add: distinct_count_atmost_1 le_Suc_eq) 
qed

text \<open>On a well-formed tree \<^verbatim>\<open>_collect_leaves\<close> returns, once it has fuel for every
  node, each node without children once.\<close>

lemma collect_leaves_wf:
  assumes inv: "tree_inv s L d"
  shows "\<exists>ls. distinct ls \<and> set ls = {m \<in> L. children (heap s m) = []} \<and>
           (\<forall>fuel. collect_leaves fuel s = (if card L < fuel then Some ls else None))"
proof -
  from shape_exists[OF inv]
  obtain t where t: "sid t = root_node s" "shape_ok s t" "distinct (ids t)" "set (ids t) = L"
    by blast
  have card: "card L = length (ids t)" using t(3,4) distinct_card by fastforce
  have "collect_leaves fuel s = (if card L < fuel then Some (leaves_of t) else None)" for fuel
    using collect_leaves_loop_shape[of "[t]" s fuel "[]"] t(1,2) card
    by (simp add: collect_leaves_def)
  then show ?thesis
    using leaves_of_distinct[OF t(2,3)] leaves_of_set[OF t(2)] t(4) by blast
qed

subsection \<open>\<^verbatim>\<open>_total_size_helper\<close>\<close>

lemma fold_add_option_None:
  "fold (\<lambda>c x. case x of None \<Rightarrow> None
                | Some x' \<Rightarrow> (case g c of None \<Rightarrow> None | Some y \<Rightarrow> Some (x' + y))) cs None = None"
  by (induction cs) auto

lemma fold_add_option:
  "fold (\<lambda>c x. case x of None \<Rightarrow> None
                | Some x' \<Rightarrow> (case g c of None \<Rightarrow> None | Some y \<Rightarrow> Some (x' + y))) cs (Some (a::int)) =
   (if \<forall>c\<in>set cs. g c \<noteq> None then Some (a + (\<Sum>c\<leftarrow>cs. the (g c))) else None)"
proof (induction cs arbitrary: a)
  case Nil
  then show ?case by simp
next
  case (Cons c cs)
  show ?case
  proof (cases "g c")
    case None
    then show ?thesis by (simp add: fold_add_option_None)
  next
    case (Some y)
    then show ?thesis using Cons.IH[of "a + y"] by (simp add: add.assoc)
  qed
qed

lemma fold_max_le: "fold max xs (a::nat) \<le> b \<longleftrightarrow> a \<le> b \<and> (\<forall>x\<in>set xs. x \<le> b)"
  by (induction xs arbitrary: a) auto

lemma sum_list_map_concat:
  "sum_list (map f (concat xss)) = (\<Sum>xs\<leftarrow>xss. sum_list (map f xs) :: int)"
  by (induction xss) auto

lemma total_size_helper_shape:
  "shape_ok s t \<Longrightarrow>
   total_size_helper fuel s (sid t) =
     (if height t \<le> fuel then Some (\<Sum>m\<leftarrow>ids t. int (length (val (heap s m)))) else None)"
proof (induction fuel arbitrary: t)
  case 0
  then show ?case by (cases t) simp
next
  case (Suc fuel)
  obtain n ts where t: "t = Sh n ts" by (cases t)
  let ?g = "\<lambda>c. total_size_helper fuel s c"
  let ?v = "\<lambda>m. int (length (val (heap s m)))"
  have cs: "map snd (children (heap s n)) = map sid ts" and ok: "\<And>t'. t' \<in> set ts \<Longrightarrow> shape_ok s t'"
    using Suc.prems t by auto
  have g: "?g (sid t') = (if height t' \<le> fuel then Some (sum_list (map ?v (ids t'))) else None)"
    if "t' \<in> set ts" for t'
    by (rule Suc.IH[OF ok[OF that]])
  have all: "(\<forall>c\<in>set (map sid ts). ?g c \<noteq> None) \<longleftrightarrow> height t \<le> Suc fuel"
    using g t by (auto simp: fold_max_le)
  have sum: "(\<Sum>c\<leftarrow>map sid ts. the (?g c)) = sum_list (map ?v (concat (map ids ts)))"
    if "height t \<le> Suc fuel"
  proof -
    have "\<And>t'. t' \<in> set ts \<Longrightarrow> height t' \<le> fuel" using that t by (simp add: fold_max_le)
    then have eq: "map (\<lambda>c. the (?g c)) (map sid ts) = map (\<lambda>t'. sum_list (map ?v (ids t'))) ts"
      using g by simp
    have "(\<Sum>c\<leftarrow>map sid ts. the (?g c)) = sum_list (map (\<lambda>t'. sum_list (map ?v (ids t'))) ts)"
      by (simp only: eq)
    also have "\<dots> = sum_list (map ?v (concat (map ids ts)))"
      by (simp add: sum_list_map_concat comp_def)
    finally show ?thesis .
  qed
  have "total_size_helper (Suc fuel) s (sid t) =
        (if \<forall>c\<in>set (map sid ts). ?g c \<noteq> None
         then Some (?v n + (\<Sum>c\<leftarrow>map sid ts. the (?g c))) else None)"
    using t cs by (simp only: total_size_helper.simps shape.sel fold_add_option)
  then show ?case using all sum t by auto
qed

text \<open>On a well-formed tree \<^verbatim>\<open>total_size()\<close> is, once it has enough fuel, the sum of
  the value lengths over the nodes.\<close>

lemma total_size_wf:
  assumes inv: "tree_inv s L d"
  shows "\<exists>h. \<forall>fuel. total_size fuel s =
           (if h \<le> fuel then Some (\<Sum>m\<in>L. int (length (val (heap s m)))) else None)"
proof -
  from shape_exists[OF inv]
  obtain t where t: "sid t = root_node s" "shape_ok s t" "distinct (ids t)" "set (ids t) = L"
    by blast
  have "(\<Sum>m\<leftarrow>ids t. int (length (val (heap s m)))) = (\<Sum>m\<in>L. int (length (val (heap s m))))"
    using t(3,4) by (metis sum_list_distinct_conv_sum_set)
  then show ?thesis
    using total_size_helper_shape[OF t(2)] t(1) by (auto simp: total_size_def intro!: exI[of _ "height t"])
qed

section \<open>\<^verbatim>\<open>heapq\<close> permutes the list\<close>

declare siftdown_loop.simps [simp del] siftup_loop.simps [simp del]

lemma mset_update_twice:
  assumes "i < length h" "j < length h" "i \<noteq> j"
  shows "mset (h[i := h ! j, j := x]) = mset (h[i := x])"
  using assms by (simp add: mset_update nth_list_update)

lemma siftdown_loop_mset:
  "pos < length h \<Longrightarrow>
   mset (siftdown_loop lt h newitem startpos pos) = mset (h[pos := newitem])"
proof (induction lt h newitem startpos pos rule: siftdown_loop.induct)
  case (1 lt h newitem startpos pos)
  show ?case
  proof (cases "startpos < pos \<and> lt newitem (h ! ((pos - 1) div 2))")
    case True
    let ?pp = "(pos - 1) div 2"
    have pp: "?pp < pos" using True by auto
    then have "?pp < length (h[pos := h ! ?pp])" using "1.prems" by simp
    from "1.IH"[OF _ refl refl _ this] True
    have "mset (siftdown_loop lt (h[pos := h ! ?pp]) newitem startpos ?pp) =
          mset (h[pos := h ! ?pp, ?pp := newitem])" by simp
    also have "\<dots> = mset (h[pos := newitem])"
      using mset_update_twice[of pos h ?pp newitem] pp "1.prems" by simp
    finally show ?thesis using True by (subst siftdown_loop.simps) (simp add: Let_def)
  next
    case False
    then show ?thesis by (subst siftdown_loop.simps) (auto simp: Let_def)
  qed
qed

lemma siftdown_mset: "pos < length h \<Longrightarrow> mset (siftdown lt h startpos pos) = mset h"
  by (simp add: siftdown_def siftdown_loop_mset)

lemma siftup_loop_props:
  "pos < childpos \<Longrightarrow> pos < length h \<Longrightarrow> siftup_loop lt h pos childpos = (h1, pos1) \<Longrightarrow>
   length h1 = length h \<and> pos1 < length h \<and> mset (h1[pos1 := x]) = mset (h[pos := x])"
proof (induction lt h pos childpos arbitrary: h1 pos1 rule: siftup_loop.induct)
  case (1 lt h pos childpos)
  show ?case
  proof (cases "childpos < length h")
    case True
    let ?c = "if childpos + 1 < length h \<and> \<not> lt (h ! childpos) (h ! (childpos + 1))
              then childpos + 1 else childpos"
    have c: "?c < length h" "pos < ?c" "?c < 2 * ?c + 1" using True "1.prems"(1) by auto
    have "siftup_loop lt h pos childpos = siftup_loop lt (h[pos := h ! ?c]) ?c (2 * ?c + 1)"
      using True by (subst siftup_loop.simps) (simp only: Let_def if_True)
    then have eq: "siftup_loop lt (h[pos := h ! ?c]) ?c (2 * ?c + 1) = (h1, pos1)"
      using "1.prems"(3) by simp
    have "length h1 = length (h[pos := h ! ?c]) \<and> pos1 < length (h[pos := h ! ?c]) \<and>
          mset (h1[pos1 := x]) = mset (h[pos := h ! ?c, ?c := x])"
      by (rule "1.IH"[OF True refl refl c(3) _ eq]) (use c in simp)
    moreover have "mset (h[pos := h ! ?c, ?c := x]) = mset (h[pos := x])"
      using mset_update_twice[of pos h ?c x] c "1.prems"(2) by simp
    ultimately show ?thesis by simp
  next
    case False
    then show ?thesis using "1.prems" by (subst (asm) siftup_loop.simps) simp
  qed
qed

lemma siftup_mset:
  assumes "pos < length h"
  shows "mset (siftup lt h pos) = mset h"
proof -
  obtain h1 pos1 where l: "siftup_loop lt h pos (2 * pos + 1) = (h1, pos1)"
    by (cases "siftup_loop lt h pos (2 * pos + 1)")
  from siftup_loop_props[OF _ assms l, of "h ! pos"]
  have p: "length h1 = length h" "pos1 < length h" "mset (h1[pos1 := h ! pos]) = mset h"
    by simp_all
  have "mset (siftup lt h pos) = mset (h1[pos1 := h ! pos])"
    using l p(1,2) by (simp add: siftup_def siftdown_mset)
  then show ?thesis using p(3) by simp
qed

lemma heappush_mset: "mset (heappush lt h item) = add_mset item (mset h)"
  by (simp add: heappush_def siftdown_mset)

lemma heappop_mset:
  assumes "h \<noteq> []" "heappop lt h = (x, h')"
  shows "mset h = add_mset x (mset h')"
proof (cases "butlast h = []")
  case True
  then have "h = [last h]" using assms(1) by (metis append_butlast_last_id append_Nil)
  then show ?thesis using assms(2) True by (simp add: heappop_def Let_def)
next
  case False
  let ?h1 = "butlast h"
  have x: "x = ?h1 ! 0" and h': "h' = siftup lt (?h1[0 := last h]) 0"
    using assms(2) False by (simp_all add: heappop_def Let_def)
  have len: "0 < length ?h1" using False length_greater_0_conv by blast
  have "mset h' = mset (?h1[0 := last h])" unfolding h' using len by (simp add: siftup_mset)
  also have "\<dots> = add_mset (last h) (mset ?h1 - {#?h1 ! 0#})" using len by (simp add: mset_update)
  finally have "add_mset x (mset h') = add_mset (last h) (mset ?h1)"
    using x len by simp
  moreover have "mset h = add_mset (last h) (mset ?h1)"
    using assms(1) by (metis append_butlast_last_id mset.simps(2) mset_append add_mset_add_single union_mset_add_mset_right mset.simps(1))
  ultimately show ?thesis by simp
qed

lemma heapify_mset: "mset (heapify lt x) = mset x"
proof -
  have "(\<forall>i\<in>set is. i < length h) \<Longrightarrow>
        mset (fold (\<lambda>i h. siftup lt h i) is h) = mset h" for "is" h
  proof (induction "is" arbitrary: h)
    case Nil
    then show ?case by simp
  next
    case (Cons i "is")
    have "length (siftup lt h i) = length h"
      using siftup_mset[of i h lt] Cons.prems by (metis list.set_intros(1) size_mset)
    then show ?case using Cons siftup_mset[of i h lt] by simp
  qed
  moreover have "\<forall>i\<in>set (rev [0..<length x div 2]). i < length x"
  proof
    fix i assume "i \<in> set (rev [0..<length x div 2])"
    then have "i < length x div 2" by simp
    then show "i < length x" by arith
  qed
  ultimately show ?thesis unfolding heapify_def by blast
qed

text \<open>What the eviction loops use: popping removes one element of the list.\<close>

lemma heappop_props:
  assumes "h \<noteq> []" "heappop lt h = (x, h')"
  shows "x \<in> set h" "set h' \<subseteq> set h" "length h = Suc (length h')"
    "distinct h \<Longrightarrow> distinct h' \<and> x \<notin> set h'" "set h = insert x (set h')"
proof -
  note m = heappop_mset[OF assms]
  show "x \<in> set h" using m by (metis set_mset_mset union_single_eq_member)
  show "set h' \<subseteq> set h" using m by (metis set_mset_mset set_mset_add_mset_insert subset_insertI)
  show "length h = Suc (length h')" using m by (metis size_mset size_add_mset)
  show "set h = insert x (set h')" using m by (metis set_mset_mset set_mset_add_mset_insert)
  show "distinct h' \<and> x \<notin> set h'" if "distinct h"
    using that m by (metis distinct.simps(2) mset.simps(2) mset_eq_imp_distinct_iff)
qed

lemma heappush_props:
  "set (heappush lt h x) = insert x (set h)" "length (heappush lt h x) = Suc (length h)"
  "distinct (heappush lt h x) \<longleftrightarrow> distinct h \<and> x \<notin> set h"
proof -
  note m = heappush_mset[of lt h x]
  show "set (heappush lt h x) = insert x (set h)" using m by (metis set_mset_mset set_mset_add_mset_insert)
  show "length (heappush lt h x) = Suc (length h)" using m by (metis size_mset size_add_mset)
  show "distinct (heappush lt h x) \<longleftrightarrow> distinct h \<and> x \<notin> set h"
    using m by (metis distinct.simps(2) mset.simps(2) mset_eq_imp_distinct_iff)
qed

lemma heapify_props:
  "set (heapify lt h) = set h" "length (heapify lt h) = length h"
  "distinct (heapify lt h) = distinct h"
  using heapify_mset[of lt h]
  by (metis set_mset_mset, metis size_mset, metis mset_eq_imp_distinct_iff)

section \<open>Pinning and unpinning\<close>

lemma inc_loop_delta:
  "inc_lock_ref_loop fuel s node delta = Some (Inr (delta', s')) \<Longrightarrow>
   evictable_size' s' - delta' = evictable_size' s - delta \<and> delta' \<le> delta"
proof (induction fuel arbitrary: s node delta)
  case 0
  then show ?case by simp
next
  case (Suc fuel)
  show ?case
  proof (cases "node = Some (root_node s)")
    case True
    with Suc.prems show ?thesis by simp
  next
    case False
    with Suc.prems obtain n where n: "node = Some n" by (cases node) auto
    let ?s1 = "if lock_ref (heap s n) = 0
               then s\<lparr>evictable_size' := evictable_size' s - int (length (val (heap s n)))\<rparr> else s"
    let ?d1 = "if lock_ref (heap s n) = 0 then delta - int (length (val (heap s n))) else delta"
    let ?s2 = "upd_node n (\<lambda>x. x\<lparr>lock_ref := lock_ref x + 1\<rparr>) ?s1"
    from Suc.prems False n
    have "inc_lock_ref_loop fuel ?s2 (parent (heap ?s2 n)) ?d1 = Some (Inr (delta', s'))"
      by (simp split: if_splits)
    from Suc.IH[OF this] show ?thesis by (simp split: if_splits)
  qed
qed

lemma dec_loop_delta:
  "dec_lock_ref_loop fuel s node delta = Some (Inr (delta', s')) \<Longrightarrow>
   evictable_size' s' - delta' = evictable_size' s - delta \<and> delta \<le> delta'"
proof (induction fuel arbitrary: s node delta)
  case 0
  then show ?case by simp
next
  case (Suc fuel)
  show ?case
  proof (cases "node = Some (root_node s)")
    case True
    with Suc.prems show ?thesis by simp
  next
    case False
    with Suc.prems obtain n where n: "node = Some n" by (cases node) auto
    let ?s1 = "if lock_ref (heap s n) = 1
               then s\<lparr>evictable_size' := evictable_size' s + int (length (val (heap s n)))\<rparr> else s"
    let ?d1 = "if lock_ref (heap s n) = 1 then delta + int (length (val (heap s n))) else delta"
    let ?s2 = "upd_node n (\<lambda>x. x\<lparr>lock_ref := lock_ref x - 1\<rparr>) ?s1"
    from Suc.prems False n
    have "dec_lock_ref_loop fuel ?s2 (parent (heap ?s2 n)) ?d1 = Some (Inr (delta', s'))"
      by (simp split: if_splits)
    from Suc.IH[OF this] show ?thesis by (simp split: if_splits)
  qed
qed

text \<open>One round of either loop changes \<^verbatim>\<open>lock_ref\<close> of one node and the counter, which
  the tree invariant does not read.\<close>

lemma tree_inv_lock_step:
  assumes "tree_inv s L d"
  shows "tree_inv (upd_node n (\<lambda>x. x\<lparr>lock_ref := f x\<rparr>) (s\<lparr>evictable_size' := e\<rparr>)) L d"
  by (rule tree_inv_cong[OF assms]) simp_all

lemma inc_loop_returns:
  assumes "tree_inv s L d" "n \<in> L"
  shows "(d n < fuel \<longrightarrow> (\<exists>r. inc_lock_ref_loop fuel s (Some n) delta = Some (Inr r))) \<and>
         (\<forall>e. inc_lock_ref_loop fuel s (Some n) delta \<noteq> Some (Inl e))"
  using assms
proof (induction fuel arbitrary: s n delta)
  case 0
  then show ?case by simp
next
  case (Suc fuel)
  show ?case
  proof (cases "n = root_node s")
    case True
    then show ?thesis by simp
  next
    case False
    from tree_inv_parent[OF Suc.prems False]
    obtain p where p: "p \<in> L" "parent (heap s n) = Some p"
      "(hd (key (heap s n)), n) \<in> set (children (heap s p))" by blast
    have dp: "d p < d n" by (rule tree_inv_child(3)[OF Suc.prems(1) p(1) p(3)])
    let ?e = "if lock_ref (heap s n) = 0 then evictable_size' s - int (length (val (heap s n)))
              else evictable_size' s"
    let ?d1 = "if lock_ref (heap s n) = 0 then delta - int (length (val (heap s n))) else delta"
    let ?s2 = "upd_node n (\<lambda>x. x\<lparr>lock_ref := lock_ref x + 1\<rparr>) (s\<lparr>evictable_size' := ?e\<rparr>)"
    have inv2: "tree_inv ?s2 L d" by (rule tree_inv_lock_step[OF Suc.prems(1)])
    have step: "inc_lock_ref_loop (Suc fuel) s (Some n) delta =
                inc_lock_ref_loop fuel ?s2 (Some p) ?d1"
      using False p(2) by (simp add: upd_node_def)
    show ?thesis unfolding step using Suc.IH[OF inv2 p(1), of ?d1] dp by auto
  qed
qed

lemma dec_loop_returns:
  assumes "tree_inv s L d" "n \<in> L"
  shows "(d n < fuel \<longrightarrow> (\<exists>r. dec_lock_ref_loop fuel s (Some n) delta = Some (Inr r))) \<and>
         (\<forall>e. dec_lock_ref_loop fuel s (Some n) delta \<noteq> Some (Inl e))"
  using assms
proof (induction fuel arbitrary: s n delta)
  case 0
  then show ?case by simp
next
  case (Suc fuel)
  show ?case
  proof (cases "n = root_node s")
    case True
    then show ?thesis by simp
  next
    case False
    from tree_inv_parent[OF Suc.prems False]
    obtain p where p: "p \<in> L" "parent (heap s n) = Some p"
      "(hd (key (heap s n)), n) \<in> set (children (heap s p))" by blast
    have dp: "d p < d n" by (rule tree_inv_child(3)[OF Suc.prems(1) p(1) p(3)])
    let ?e = "if lock_ref (heap s n) = 1 then evictable_size' s + int (length (val (heap s n)))
              else evictable_size' s"
    let ?d1 = "if lock_ref (heap s n) = 1 then delta + int (length (val (heap s n))) else delta"
    let ?s2 = "upd_node n (\<lambda>x. x\<lparr>lock_ref := lock_ref x - 1\<rparr>) (s\<lparr>evictable_size' := ?e\<rparr>)"
    have inv2: "tree_inv ?s2 L d" by (rule tree_inv_lock_step[OF Suc.prems(1)])
    have step: "dec_lock_ref_loop (Suc fuel) s (Some n) delta =
                dec_lock_ref_loop fuel ?s2 (Some p) ?d1"
      using False p(2) by (simp add: upd_node_def)
    show ?thesis unfolding step using Suc.IH[OF inv2 p(1), of ?d1] dp by auto
  qed
qed

text \<open>C9. For a node of a well-formed tree, \<^verbatim>\<open>inc_lock_ref\<close> and \<^verbatim>\<open>dec_lock_ref\<close>
  return (with enough fuel, and never an error), and whenever they return, the
  counter after the call is the counter before plus the returned delta; the delta
  is at most 0 for \<^verbatim>\<open>inc_lock_ref\<close> and at least 0 for \<^verbatim>\<open>dec_lock_ref\<close>.\<close>

theorem lock_ref_returns_delta:
  assumes "wf_tree s" "in_tree s n"
  shows "(\<exists>fuel delta s'. inc_lock_ref fuel s n = Some (Inr (delta, s'))) \<and>
         (\<forall>fuel r. inc_lock_ref fuel s n = Some r \<longrightarrow>
            (\<exists>delta s'. r = Inr (delta, s') \<and>
               evictable_size s' = evictable_size s + delta \<and> delta \<le> 0)) \<and>
         (\<exists>fuel delta s'. dec_lock_ref fuel s n = Some (Inr (delta, s'))) \<and>
         (\<forall>fuel r. dec_lock_ref fuel s n = Some r \<longrightarrow>
            (\<exists>delta s'. r = Inr (delta, s') \<and>
               evictable_size s' = evictable_size s + delta \<and> 0 \<le> delta))"
proof -
  from assms(1) obtain L d where inv: "tree_inv s L d" unfolding wf_tree_def by blast
  have n: "n \<in> L" by (rule in_tree_in_L[OF inv assms(2)])
  note i = inc_loop_returns[OF inv n, of "Suc (d n)" 0]
  note de = dec_loop_returns[OF inv n, of "Suc (d n)" 0]
  have 1: "\<exists>fuel delta s'. inc_lock_ref fuel s n = Some (Inr (delta, s'))"
  proof (cases "disable s")
    case True
    then show ?thesis by (simp add: inc_lock_ref_def)
  next
    case False
    from i obtain r where "inc_lock_ref_loop (Suc (d n)) s (Some n) 0 = Some (Inr r)" by auto
    then have "inc_lock_ref (Suc (d n)) s n = Some (Inr (fst r, snd r))"
      using False by (simp add: inc_lock_ref_def)
    then show ?thesis by blast
  qed
  have 2: "\<exists>delta s'. r = Inr (delta, s') \<and> evictable_size s' = evictable_size s + delta \<and>
             delta \<le> 0" if r: "inc_lock_ref fuel s n = Some r" for fuel r
  proof (cases "disable s")
    case True
    then show ?thesis using r by (auto simp: inc_lock_ref_def)
  next
    case False
    then have l: "inc_lock_ref_loop fuel s (Some n) 0 = Some r" using r by (simp add: inc_lock_ref_def)
    with inc_loop_returns[OF inv n, of fuel 0] obtain delta s' where rr: "r = Inr (delta, s')"
      by (cases r) auto
    from inc_loop_delta[OF l[unfolded rr]] rr show ?thesis by (simp add: evictable_size_def)
  qed
  have 3: "\<exists>fuel delta s'. dec_lock_ref fuel s n = Some (Inr (delta, s'))"
  proof (cases "disable s")
    case True
    then show ?thesis by (simp add: dec_lock_ref_def)
  next
    case False
    from de obtain r where "dec_lock_ref_loop (Suc (d n)) s (Some n) 0 = Some (Inr r)" by auto
    then have "dec_lock_ref (Suc (d n)) s n = Some (Inr (fst r, snd r))"
      using False by (simp add: dec_lock_ref_def)
    then show ?thesis by blast
  qed
  have 4: "\<exists>delta s'. r = Inr (delta, s') \<and> evictable_size s' = evictable_size s + delta \<and>
             0 \<le> delta" if r: "dec_lock_ref fuel s n = Some r" for fuel r
  proof (cases "disable s")
    case True
    then show ?thesis using r by (auto simp: dec_lock_ref_def)
  next
    case False
    then have l: "dec_lock_ref_loop fuel s (Some n) 0 = Some r" using r by (simp add: dec_lock_ref_def)
    with dec_loop_returns[OF inv n, of fuel 0] obtain delta s' where rr: "r = Inr (delta, s')"
      by (cases r) auto
    from dec_loop_delta[OF l[unfolded rr]] rr show ?thesis by (simp add: evictable_size_def)
  qed
  from 1 2 3 4 show ?thesis by blast
qed

section \<open>\<^verbatim>\<open>evict1\<close> without a reserved set\<close>

lemma root_has_child:
  assumes inv: "tree_inv s L d"
  shows "n \<in> L \<Longrightarrow> n \<noteq> root_node s \<Longrightarrow> children (heap s (root_node s)) \<noteq> []"
proof (induction "d n" arbitrary: n rule: less_induct)
  case less
  from tree_inv_parent[OF inv less.prems]
  obtain p where p: "p \<in> L" "parent (heap s n) = Some p"
    "(hd (key (heap s n)), n) \<in> set (children (heap s p))" by blast
  show ?case
  proof (cases "p = root_node s")
    case True
    then show ?thesis using p(3) by auto
  next
    case False
    from tree_inv_child(3)[OF inv p(1) p(3)] have "d p < d n" .
    from less.hyps[OF this p(1) False] show ?thesis .
  qed
qed

lemma tree_inv_counters:
  "tree_inv s L d \<Longrightarrow> tree_inv (s\<lparr>flag := f, call_counter := c\<rparr>) L d"
  by (rule tree_inv_cong) simp_all

lemma evict1_loop_None:
  assumes "root_node s \<notin> set leaves" "x \<in> set leaves" "\<not> 0 < lock_ref (heap s x)"
    "num_evicted < num_tokens"
  shows "(length leaves \<le> fuel \<longrightarrow>
            evict1_loop fuel s freed leaves num_evicted num_tokens None = Some (Inl TypeError)) \<and>
         (evict1_loop fuel s freed leaves num_evicted num_tokens None = None \<or>
          evict1_loop fuel s freed leaves num_evicted num_tokens None = Some (Inl TypeError))"
  using assms(1,2)
proof (induction fuel arbitrary: leaves)
  case 0
  then show ?case by auto
next
  case (Suc fuel)
  have ne: "leaves \<noteq> []" using Suc.prems(2) by auto
  obtain y leaves1 where pop: "heappop (node_lt s) leaves = (y, leaves1)"
    by (cases "heappop (node_lt s) leaves")
  note pp = heappop_props[OF ne pop]
  have yr: "y \<noteq> root_node s" using pp(1) Suc.prems(1) by auto
  show ?case
  proof (cases "0 < lock_ref (heap s y)")
    case True
    then have xy: "x \<noteq> y" using assms(3) by auto
    then have x1: "x \<in> set leaves1" using pp(5) Suc.prems(2) by auto
    have r1: "root_node s \<notin> set leaves1" using pp(2) Suc.prems(1) by auto
    have step: "evict1_loop (Suc fuel) s freed leaves num_evicted num_tokens None =
                evict1_loop fuel s freed leaves1 num_evicted num_tokens None"
      using ne pop yr True assms(4) by simp
    show ?thesis unfolding step using Suc.IH[OF r1 x1] pp(3) by auto
  next
    case False
    then show ?thesis using ne pop yr assms(4) by simp
  qed
qed

text \<open>C10. On an enabled cache whose tree has a leaf below the root with
  \<^verbatim>\<open>lock_ref == 0\<close>, \<^verbatim>\<open>evict1\<close> called for at least one token and without the
  reserved set raises \<^verbatim>\<open>TypeError\<close>: with enough fuel that is its result, and with
  less fuel it has no result at all, so nothing is ever evicted. \<^verbatim>\<open>evict\<close> does not
  read the argument.\<close>

theorem evict1_without_reserved_set_raises:
  assumes "wf_tree s" "\<not> disable s" "in_tree s x" "x \<noteq> root_node s"
    "children (heap s x) = []" "lock_ref (heap s x) = 0" "1 \<le> num_tokens"
  shows "(\<exists>fuel. evict1 fuel s num_tokens None = Some (Inl TypeError)) \<and>
         (\<forall>fuel. evict1 fuel s num_tokens None = None \<or>
                 evict1 fuel s num_tokens None = Some (Inl TypeError)) \<and>
         (\<forall>fuel w. evict fuel s num_tokens w = evict fuel s num_tokens None)"
proof -
  from assms(1) obtain L d where inv: "tree_inv s L d" unfolding wf_tree_def by blast
  let ?s0 = "s\<lparr>flag := True, call_counter := call_counter s + 1\<rparr>"
  have inv0: "tree_inv ?s0 L d" by (rule tree_inv_counters[OF inv])
  have xL: "x \<in> L" by (rule in_tree_in_L[OF inv assms(3)])
  from collect_leaves_wf[OF inv0] obtain ls where ls: "distinct ls"
    "set ls = {m \<in> L. children (heap ?s0 m) = []}"
    "\<And>fuel. collect_leaves fuel ?s0 = (if card L < fuel then Some ls else None)" by blast
  have x: "x \<in> set ls" using ls(2) xL assms(5) by simp
  have "children (heap s (root_node s)) \<noteq> []" by (rule root_has_child[OF inv xL assms(4)])
  then have r: "root_node ?s0 \<notin> set ls" using ls(2) by simp
  have lk: "\<not> 0 < lock_ref (heap ?s0 x)" using assms(6) by simp
  have len: "length ls \<le> card L"
    using ls(1,2) tree_inv_finite[OF inv] by (metis (no_types, lifting) card_mono distinct_card mem_Collect_eq subsetI)
  note loop = evict1_loop_None[OF r x lk, of 0 num_tokens _ "[]"]
  have ev: "evict1 fuel s num_tokens None =
        (if card L < fuel
         then (case evict1_loop fuel ?s0 [] ls 0 num_tokens None of
                 None \<Rightarrow> None
               | Some (Inl e) \<Rightarrow> Some (Inl e)
               | Some (Inr (s1, freed, num_evicted)) \<Rightarrow>
                   Some (Inr (s1\<lparr>token_counter := token_counter s1 + num_evicted\<rparr>, freed)))
         else None)" for fuel
    using assms(2) ls(3)[of fuel] by (simp add: evict1_def Let_def)
  have 1: "evict1 (Suc (card L)) s num_tokens None = Some (Inl TypeError)"
    using loop[of "Suc (card L)"] len assms(7) by (simp add: ev)
  have 2: "evict1 fuel s num_tokens None = None \<or>
           evict1 fuel s num_tokens None = Some (Inl TypeError)" for fuel
    using loop[of fuel] assms(7) by (auto simp: ev)
  have 3: "evict fuel s num_tokens w = evict fuel s num_tokens None" for fuel w
    by (simp add: evict_def)
  from 1 2 3 show ?thesis by blast
qed

section \<open>The eviction loops\<close>

lemma evict_loop_evict1_loop:
  "evict_loop fuel s freed leaves num_evicted num_tokens =
   evict1_loop fuel s freed leaves num_evicted num_tokens (Some [])"
  by (induction fuel arbitrary: s freed leaves num_evicted)
     (auto simp: Let_def split: prod.splits sum.splits option.splits)

lemma exists_leaf:
  assumes inv: "tree_inv s L d"
  shows "\<exists>m\<in>L. children (heap s m) = []"
proof -
  have fin: "finite (d ` L)" "d ` L \<noteq> {}"
    using tree_inv_finite[OF inv] tree_inv_root[OF inv] by auto
  from Max_in[OF fin] obtain m where m: "m \<in> L" "d m = Max (d ` L)" by auto
  have "children (heap s m) = []"
  proof (rule ccontr)
    assume "children (heap s m) \<noteq> []"
    then obtain k c where kc: "(k, c) \<in> set (children (heap s m))"
      by (cases "children (heap s m)") auto
    from tree_inv_child(1,3)[OF inv m(1) kc] have "c \<in> L" "d m < d c" by auto
    moreover from this(1) have "d c \<le> Max (d ` L)" using fin(1) by simp
    ultimately show False using m(2) by simp
  qed
  with m(1) show ?thesis by blast
qed

text \<open>One deletion, as the loops perform it on a leaf of the tree.\<close>

lemma delete_leaf_step:
  assumes inv: "tree_inv s L d" and x: "x \<in> L" "x \<noteq> root_node s"
    and leaf: "children (heap s x) = []"
  shows "\<exists>p s1. delete_leaf s x = Inr s1 \<and> parent (heap s1 x) = Some p \<and> p \<in> L \<and> p \<noteq> x \<and>
      children (heap s p) \<noteq> [] \<and> tree_inv s1 (L - {x}) d \<and>
      evictable_size' s1 = evictable_size' s - int (length (key (heap s x))) \<and>
      root_node s1 = root_node s \<and>
      (\<forall>m. key (heap s1 m) = key (heap s m) \<and> val (heap s1 m) = val (heap s m) \<and>
           lock_ref (heap s1 m) = lock_ref (heap s m)) \<and>
      (\<forall>m. m \<noteq> p \<longrightarrow> children (heap s1 m) = children (heap s m))"
proof -
  from delete_leaf_effect[OF inv x]
  obtain p s1 where p: "parent (heap s x) = Some p" "p \<in> L" "p \<noteq> x"
    "(hd (key (heap s x)), x) \<in> set (children (heap s p))"
    and del: "delete_leaf s x = Inr s1"
    and H: "heap s1 = (heap s)(p := (heap s p)\<lparr>children :=
                   AList.delete (hd (key (heap s x))) (children (heap s p))\<rparr>)"
    and e: "evictable_size' s1 = evictable_size' s - int (length (key (heap s x)))"
    and rt: "root_node s1 = root_node s"
    by blast
  have "tree_inv s1 (L - {x}) d" by (rule delete_leaf_tree_inv[OF inv x leaf del])
  moreover have "children (heap s p) \<noteq> []" using p(4) by auto
  moreover have "parent (heap s1 x) = Some p" using H p(1,3) by simp
  ultimately show ?thesis using p del e rt H by (intro exI[of _ p] exI[of _ s1]) simp
qed

lemma evict1_loop_spec:
  assumes "tree_inv s L d" "distinct leaves"
    "set leaves \<subseteq> {m \<in> L. children (heap s m) = []}"
  shows "(card L + length leaves < fuel \<longrightarrow>
           evict1_loop fuel s freed leaves ne nt (Some w) \<noteq> None) \<and>
     (\<forall>r. evict1_loop fuel s freed leaves ne nt (Some w) = Some r \<longrightarrow>
        (\<exists>s' xs. r = Inr (s', freed @ map (\<lambda>x. val (heap s x)) xs,
                          ne + (\<Sum>x\<leftarrow>xs. int (length (val (heap s x))))) \<and>
            distinct xs \<and> set xs \<subseteq> L - {root_node s} \<and> set xs \<inter> set w = {} \<and>
            (\<forall>x\<in>set xs. lock_ref (heap s x) \<le> 0) \<and>
            tree_inv s' (L - set xs) d \<and>
            evictable_size' s' =
              evictable_size' s - (\<Sum>x\<leftarrow>xs. int (length (key (heap s x)))) \<and>
            root_node s' = root_node s \<and>
            (\<forall>m. key (heap s' m) = key (heap s m) \<and> val (heap s' m) = val (heap s m) \<and>
                 lock_ref (heap s' m) = lock_ref (heap s m)) \<and>
            ((\<forall>m\<in>L - {root_node s}. lock_ref (heap s m) \<le> 0) \<and> set w \<inter> L = {} \<and>
             set leaves = {m \<in> L. children (heap s m) = []} \<longrightarrow>
             nt \<le> ne + (\<Sum>x\<leftarrow>xs. int (length (val (heap s x)))) \<or>
             L - set xs = {root_node s})))"
  using assms
proof (induction fuel arbitrary: s L freed leaves ne)
  case 0
  then show ?case by simp
next
  case (Suc fuel)
  note inv = Suc.prems(1) and dist = Suc.prems(2) and sub = Suc.prems(3)
  let ?R = "\<lambda>s L freed leaves ne (r :: error + RadixCache \<times> slot list list \<times> int). (\<exists>s' xs. r = Inr (s', freed @ map (\<lambda>x. val (heap s x)) xs,
                          ne + (\<Sum>x\<leftarrow>xs. int (length (val (heap s x))))) \<and>
            distinct xs \<and> set xs \<subseteq> L - {root_node s} \<and> set xs \<inter> set w = {} \<and>
            (\<forall>x\<in>set xs. lock_ref (heap s x) \<le> 0) \<and>
            tree_inv s' (L - set xs) d \<and>
            evictable_size' s' =
              evictable_size' s - (\<Sum>x\<leftarrow>xs. int (length (key (heap s x)))) \<and>
            root_node s' = root_node s \<and>
            (\<forall>m. key (heap s' m) = key (heap s m) \<and> val (heap s' m) = val (heap s m) \<and>
                 lock_ref (heap s' m) = lock_ref (heap s m)) \<and>
            ((\<forall>m\<in>L - {root_node s}. lock_ref (heap s m) \<le> 0) \<and> set w \<inter> L = {} \<and>
             set leaves = {m \<in> L. children (heap s m) = []} \<longrightarrow>
             nt \<le> ne + (\<Sum>x\<leftarrow>xs. int (length (val (heap s x)))) \<or>
             L - set xs = {root_node s}))"
  text \<open>Leaving the loop at once.\<close>
  have stop: "?R s L freed leaves ne (Inr (s, freed, ne))"
    if c: "\<not> ne < nt \<or> leaves = [] \<or> root_node s \<in> set leaves"
  proof -
    have "nt \<le> ne \<or> L = {root_node s}"
      if h: "set leaves = {m \<in> L. children (heap s m) = []}"
    proof (cases "ne < nt")
      case False
      then show ?thesis by simp
    next
      case True
      have "root_node s \<in> set leaves"
      proof (cases "leaves = []")
        case True
        then show ?thesis using exists_leaf[OF inv] h by auto
      next
        case False
        then show ?thesis using c True by simp
      qed
      then have "children (heap s (root_node s)) = []" using sub by auto
      then have "L = {root_node s}" using root_has_child[OF inv] tree_inv_root[OF inv] by blast
      then show ?thesis by simp
    qed
    then show ?thesis using inv by (intro exI[of _ s] exI[of _ "[]"]) simp
  qed
  show ?case
  proof (cases "ne < nt \<and> leaves \<noteq> []")
    case False
    then have "evict1_loop (Suc fuel) s freed leaves ne nt (Some w) = Some (Inr (s, freed, ne))"
      by auto
    moreover have "?R s L freed leaves ne (Inr (s, freed, ne))" using stop False by blast
    ultimately show ?thesis by simp
  next
    case True
    then have ne: "leaves \<noteq> []" and lt: "ne < nt" by auto
    obtain x leaves1 where pop: "heappop (node_lt s) leaves = (x, leaves1)"
      by (cases "heappop (node_lt s) leaves")
    note pp = heappop_props[OF ne pop]
    have d1: "distinct leaves1" "x \<notin> set leaves1" using pp(4) dist by auto
    have xL: "x \<in> L" "children (heap s x) = []" using pp(1) sub by auto
    have sub1: "set leaves1 \<subseteq> {m \<in> L. children (heap s m) = []}" using pp(2) sub by auto
    show ?thesis
    proof (cases "x = root_node s")
      case True
      then have "evict1_loop (Suc fuel) s freed leaves ne nt (Some w) = Some (Inr (s, freed, ne))"
        using ne lt pop by simp
      moreover have "?R s L freed leaves ne (Inr (s, freed, ne))" using stop True pp(1) by blast
      ultimately show ?thesis by simp
    next
      case xr: False
      show ?thesis
      proof (cases "0 < lock_ref (heap s x) \<or> x \<in> set w")
        case True
        then have step: "evict1_loop (Suc fuel) s freed leaves ne nt (Some w) =
                         evict1_loop fuel s freed leaves1 ne nt (Some w)"
          using ne lt pop xr by auto
        note IH = Suc.IH[OF inv d1(1) sub1, of freed ne]
        have "?R s L freed leaves ne r" if "?R s L freed leaves1 ne r" for r
        proof -
          have "\<not> ((\<forall>m\<in>L - {root_node s}. lock_ref (heap s m) \<le> 0) \<and> set w \<inter> L = {})"
          proof
            assume a: "(\<forall>m\<in>L - {root_node s}. lock_ref (heap s m) \<le> 0) \<and> set w \<inter> L = {}"
            have "x \<in> L - {root_node s}" using xL(1) xr by simp
            with a have "lock_ref (heap s x) \<le> 0" by blast
            moreover have "x \<notin> set w" using a xL(1) by blast
            ultimately show False using True by simp
          qed
          then show ?thesis using that by blast
        qed
        then show ?thesis unfolding step using IH pp(3) by auto
      next
        case False
        then have lk: "lock_ref (heap s x) \<le> 0" and xw: "x \<notin> set w" by auto
        from delete_leaf_step[OF inv xL(1) xr xL(2)]
        obtain p s1 where del: "delete_leaf s x = Inr s1" and par: "parent (heap s1 x) = Some p"
          and p: "p \<in> L" "p \<noteq> x" "children (heap s p) \<noteq> []"
          and inv1: "tree_inv s1 (L - {x}) d"
          and e1: "evictable_size' s1 = evictable_size' s - int (length (key (heap s x)))"
          and rt1: "root_node s1 = root_node s"
          and fr1: "\<And>m. key (heap s1 m) = key (heap s m) \<and> val (heap s1 m) = val (heap s m) \<and>
                       lock_ref (heap s1 m) = lock_ref (heap s m)"
          and ch1: "\<And>m. m \<noteq> p \<Longrightarrow> children (heap s1 m) = children (heap s m)"
          by blast
        let ?leaves2 = "if length (children (heap s1 p)) = 0
                        then heappush (node_lt s1) leaves1 p else leaves1"
        let ?freed1 = "freed @ [val (heap s x)]"
        let ?ne1 = "ne + int (length (val (heap s x)))"
        have step: "evict1_loop (Suc fuel) s freed leaves ne nt (Some w) =
                    evict1_loop fuel s1 ?freed1 ?leaves2 ?ne1 nt (Some w)"
          using ne lt pop xr False del par by (simp add: Let_def)
        have p1: "p \<notin> set leaves1" using sub1 p(3) by auto
        have d2: "distinct ?leaves2" using d1(1) p1 by (simp add: heappush_props)
        have set2: "set ?leaves2 = (if children (heap s1 p) = [] then insert p (set leaves1)
                                    else set leaves1)"
          by (simp add: heappush_props)
        have keepl: "children (heap s1 m) = []" if "m \<in> set leaves1" for m
        proof -
          have "children (heap s m) = []" using that sub1 by blast
          moreover from this have "m \<noteq> p" using p(3) by blast
          ultimately show ?thesis using ch1[of m] by simp
        qed
        have sub2: "set ?leaves2 \<subseteq> {m \<in> L - {x}. children (heap s1 m) = []}"
          using set2 keepl sub1 d1(2) p(1,2) by auto
        have len2: "length ?leaves2 \<le> length leaves" using pp(3) by (simp add: heappush_props)
        have card1: "Suc (card (L - {x})) = card L"
          by (rule card_Suc_Diff1[OF tree_inv_finite[OF inv] xL(1)])
        note IH = Suc.IH[OF inv1 d2 sub2, of ?freed1 ?ne1]
        have conv: "?R s L freed leaves ne r" if "?R s1 (L - {x}) ?freed1 ?leaves2 ?ne1 r" for r
        proof -
          from that obtain s' xs where
            r: "r = Inr (s', ?freed1 @ map (\<lambda>x. val (heap s1 x)) xs,
                          ?ne1 + (\<Sum>x\<leftarrow>xs. int (length (val (heap s1 x)))))"
            and xs: "distinct xs" "set xs \<subseteq> L - {x} - {root_node s1}" "set xs \<inter> set w = {}"
              "\<forall>x\<in>set xs. lock_ref (heap s1 x) \<le> 0"
            and inv': "tree_inv s' (L - {x} - set xs) d"
            and e': "evictable_size' s' =
              evictable_size' s1 - (\<Sum>x\<leftarrow>xs. int (length (key (heap s1 x))))"
            and rt': "root_node s' = root_node s1"
            and fr': "\<forall>m. key (heap s' m) = key (heap s1 m) \<and> val (heap s' m) = val (heap s1 m) \<and>
                 lock_ref (heap s' m) = lock_ref (heap s1 m)"
            and c5: "(\<forall>m\<in>L - {x} - {root_node s1}. lock_ref (heap s1 m) \<le> 0) \<and>
               set w \<inter> (L - {x}) = {} \<and>
               set ?leaves2 = {m \<in> L - {x}. children (heap s1 m) = []} \<longrightarrow>
               nt \<le> ?ne1 + (\<Sum>x\<leftarrow>xs. int (length (val (heap s1 x)))) \<or>
               L - {x} - set xs = {root_node s1}"
            by blast
          let ?xs = "x # xs"
          have Leq: "L - {x} - set xs = L - set ?xs" by auto
          have 1: "r = Inr (s', freed @ map (\<lambda>x. val (heap s x)) ?xs,
                          ne + (\<Sum>x\<leftarrow>?xs. int (length (val (heap s x)))))"
            using r fr1 by simp
          have 2: "distinct ?xs" "set ?xs \<subseteq> L - {root_node s}" "set ?xs \<inter> set w = {}"
            "\<forall>x\<in>set ?xs. lock_ref (heap s x) \<le> 0"
            using xs xL(1) xr xw lk rt1 fr1 by auto
          have 3: "tree_inv s' (L - set ?xs) d" using inv' Leq by simp
          have 4: "evictable_size' s' =
              evictable_size' s - (\<Sum>x\<leftarrow>?xs. int (length (key (heap s x))))"
            using e' e1 fr1 by simp
          have 5: "root_node s' = root_node s" using rt' rt1 by simp
          have 6: "\<forall>m. key (heap s' m) = key (heap s m) \<and> val (heap s' m) = val (heap s m) \<and>
                 lock_ref (heap s' m) = lock_ref (heap s m)"
            using fr' fr1 by simp
          have 7: "nt \<le> ne + (\<Sum>x\<leftarrow>?xs. int (length (val (heap s x)))) \<or>
                   L - set ?xs = {root_node s}"
            if h: "\<forall>m\<in>L - {root_node s}. lock_ref (heap s m) \<le> 0" "set w \<inter> L = {}"
              "set leaves = {m \<in> L. children (heap s m) = []}"
          proof -
            have a: "\<forall>m\<in>L - {x} - {root_node s1}. lock_ref (heap s1 m) \<le> 0"
              using h(1) fr1 rt1 by auto
            have b: "set w \<inter> (L - {x}) = {}" using h(2) by auto
            have l1: "set leaves1 = {m \<in> L - {x}. children (heap s m) = []}"
              using pp(5) d1(2) h(3) by auto
            have c: "set ?leaves2 = {m \<in> L - {x}. children (heap s1 m) = []}"
            proof (intro set_eqI iffI)
              fix m assume "m \<in> set ?leaves2"
              then show "m \<in> {m \<in> L - {x}. children (heap s1 m) = []}" using sub2 by auto
            next
              fix m assume m: "m \<in> {m \<in> L - {x}. children (heap s1 m) = []}"
              show "m \<in> set ?leaves2"
              proof (cases "m = p")
                case True
                then show ?thesis using m set2 by simp
              next
                case False
                then have "m \<in> set leaves1" using m ch1[of m] l1 by auto
                then show ?thesis using set2 by auto
              qed
            qed
            from c5 a b c have "nt \<le> ?ne1 + (\<Sum>x\<leftarrow>xs. int (length (val (heap s1 x)))) \<or>
               L - {x} - set xs = {root_node s1}" by blast
            then show ?thesis using fr1 rt1 Leq by (simp add: add.assoc)
          qed
          show ?thesis
            by (intro exI[of _ s'] exI[of _ ?xs] conjI impI 1 2 3 4 5 6 7) auto
        qed
        have fl: "card (L - {x}) + length ?leaves2 < fuel"
          if "card L + length leaves < Suc fuel"
          using that len2 card1 by linarith
        show ?thesis unfolding step
        proof (intro conjI impI allI)
          assume "card L + length leaves < Suc fuel"
          from IH[THEN conjunct1, rule_format, OF fl[OF this]]
          show "evict1_loop fuel s1 ?freed1 ?leaves2 ?ne1 nt (Some w) \<noteq> None" .
        next
          fix r assume "evict1_loop fuel s1 ?freed1 ?leaves2 ?ne1 nt (Some w) = Some r"
          from IH[THEN conjunct2, rule_format, OF this]
          show "?R s L freed leaves ne r" by (rule conv)
        qed
      qed
    qed
  qed
qed

section \<open>\<^verbatim>\<open>evict\<close> and \<^verbatim>\<open>evict1\<close> on a well-formed tree\<close>

text \<open>The nodes \<open>xs\<close> are those the pass deletes, in order; the callback gets their
  values.\<close>

lemma evict1_spec:
  assumes inv: "tree_inv s L d" and en: "\<not> disable s"
  shows "(2 * card L < fuel \<longrightarrow> evict1 fuel s nt (Some w) \<noteq> None) \<and>
     (\<forall>r. evict1 fuel s nt (Some w) = Some r \<longrightarrow>
        (\<exists>s' xs. r = Inr (s', map (\<lambda>x. val (heap s x)) xs) \<and>
            distinct xs \<and> set xs \<subseteq> L - {root_node s} \<and> set xs \<inter> set w = {} \<and>
            (\<forall>x\<in>set xs. lock_ref (heap s x) \<le> 0) \<and>
            tree_inv s' (L - set xs) d \<and>
            evictable_size' s' =
              evictable_size' s - (\<Sum>x\<leftarrow>xs. int (length (key (heap s x)))) \<and>
            root_node s' = root_node s \<and>
            (\<forall>m. key (heap s' m) = key (heap s m) \<and> val (heap s' m) = val (heap s m) \<and>
                 lock_ref (heap s' m) = lock_ref (heap s m)) \<and>
            ((\<forall>m\<in>L - {root_node s}. lock_ref (heap s m) \<le> 0) \<and> set w \<inter> L = {} \<longrightarrow>
             nt \<le> (\<Sum>x\<leftarrow>xs. int (length (val (heap s x)))) \<or>
             L - set xs = {root_node s})))"
proof -
  let ?s0 = "s\<lparr>flag := True, call_counter := call_counter s + 1\<rparr>"
  have inv0: "tree_inv ?s0 L d" by (rule tree_inv_counters[OF inv])
  from collect_leaves_wf[OF inv0] obtain ls where ls: "distinct ls"
    "set ls = {m \<in> L. children (heap ?s0 m) = []}"
    "\<And>fuel. collect_leaves fuel ?s0 = (if card L < fuel then Some ls else None)" by blast
  have len: "length ls \<le> card L"
    using ls(1,2) tree_inv_finite[OF inv]
    by (metis (no_types, lifting) card_mono distinct_card mem_Collect_eq subsetI)
  have sub: "set ls \<subseteq> {m \<in> L. children (heap ?s0 m) = []}" using ls(2) by simp
  note loop = evict1_loop_spec[OF inv0 ls(1) sub, of fuel "[]" 0 nt w]
  have ev: "evict1 fuel s nt (Some w) =
        (if card L < fuel
         then (case evict1_loop fuel ?s0 [] ls 0 nt (Some w) of
                 None \<Rightarrow> None
               | Some (Inl e) \<Rightarrow> Some (Inl e)
               | Some (Inr (s1, freed, num_evicted)) \<Rightarrow>
                   Some (Inr (s1\<lparr>token_counter := token_counter s1 + num_evicted\<rparr>, freed)))
         else None)"
    using en ls(3)[of fuel] by (simp add: evict1_def Let_def)
  show ?thesis
  proof (intro conjI impI allI)
    assume f: "2 * card L < fuel"
    then have "card L + length ls < fuel" using len by simp
    with loop obtain r1 where r1: "evict1_loop fuel ?s0 [] ls 0 nt (Some w) = Some r1" by auto
    with loop obtain s1 fr n1 where "r1 = Inr (s1, fr, n1)" by blast
    with r1 f show "evict1 fuel s nt (Some w) \<noteq> None" by (simp add: ev)
  next
    fix r assume r: "evict1 fuel s nt (Some w) = Some r"
    then obtain r1 where r1: "evict1_loop fuel ?s0 [] ls 0 nt (Some w) = Some r1"
      by (auto simp: ev split: if_splits option.splits)
    from loop[THEN conjunct2, rule_format, OF r1] ls(2)
    obtain s1 xs where
      r1': "r1 = Inr (s1, map (\<lambda>x. val (heap s x)) xs, (\<Sum>x\<leftarrow>xs. int (length (val (heap s x)))))"
      and xs: "distinct xs" "set xs \<subseteq> L - {root_node s}" "set xs \<inter> set w = {}"
        "\<forall>x\<in>set xs. lock_ref (heap s x) \<le> 0"
      and inv1: "tree_inv s1 (L - set xs) d"
      and e1: "evictable_size' s1 = evictable_size' s - (\<Sum>x\<leftarrow>xs. int (length (key (heap s x))))"
      and rt1: "root_node s1 = root_node s"
      and fr1: "\<forall>m. key (heap s1 m) = key (heap s m) \<and> val (heap s1 m) = val (heap s m) \<and>
                 lock_ref (heap s1 m) = lock_ref (heap s m)"
      and c5: "(\<forall>m\<in>L - {root_node s}. lock_ref (heap s m) \<le> 0) \<and> set w \<inter> L = {} \<longrightarrow>
             nt \<le> (\<Sum>x\<leftarrow>xs. int (length (val (heap s x)))) \<or> L - set xs = {root_node s}"
      by auto
    let ?s' = "s1\<lparr>token_counter := token_counter s1 + (\<Sum>x\<leftarrow>xs. int (length (val (heap s x))))\<rparr>"
    have rr: "r = Inr (?s', map (\<lambda>x. val (heap s x)) xs)"
      using r r1 r1' by (simp add: ev split: if_splits)
    have inv': "tree_inv ?s' (L - set xs) d" by (rule tree_inv_cong[OF inv1]) simp_all
    show "\<exists>s' xs. r = Inr (s', map (\<lambda>x. val (heap s x)) xs) \<and>
            distinct xs \<and> set xs \<subseteq> L - {root_node s} \<and> set xs \<inter> set w = {} \<and>
            (\<forall>x\<in>set xs. lock_ref (heap s x) \<le> 0) \<and>
            tree_inv s' (L - set xs) d \<and>
            evictable_size' s' =
              evictable_size' s - (\<Sum>x\<leftarrow>xs. int (length (key (heap s x)))) \<and>
            root_node s' = root_node s \<and>
            (\<forall>m. key (heap s' m) = key (heap s m) \<and> val (heap s' m) = val (heap s m) \<and>
                 lock_ref (heap s' m) = lock_ref (heap s m)) \<and>
            ((\<forall>m\<in>L - {root_node s}. lock_ref (heap s m) \<le> 0) \<and> set w \<inter> L = {} \<longrightarrow>
             nt \<le> (\<Sum>x\<leftarrow>xs. int (length (val (heap s x)))) \<or>
             L - set xs = {root_node s})"
      using rr xs inv' e1 rt1 fr1 c5 by (intro exI[of _ ?s'] exI[of _ xs]) simp
  qed
qed

lemma evict_spec:
  assumes inv: "tree_inv s L d" and en: "\<not> disable s"
  shows "(2 * card L < fuel \<longrightarrow> evict fuel s nt w0 \<noteq> None) \<and>
     (\<forall>r. evict fuel s nt w0 = Some r \<longrightarrow>
        (\<exists>s' xs. r = Inr (s', map (\<lambda>x. val (heap s x)) xs) \<and>
            distinct xs \<and> set xs \<subseteq> L - {root_node s} \<and>
            (\<forall>x\<in>set xs. lock_ref (heap s x) \<le> 0) \<and>
            tree_inv s' (L - set xs) d \<and>
            evictable_size' s' =
              evictable_size' s - (\<Sum>x\<leftarrow>xs. int (length (key (heap s x)))) \<and>
            root_node s' = root_node s \<and>
            (\<forall>m. key (heap s' m) = key (heap s m) \<and> val (heap s' m) = val (heap s m) \<and>
                 lock_ref (heap s' m) = lock_ref (heap s m)) \<and>
            ((\<forall>m\<in>L - {root_node s}. lock_ref (heap s m) \<le> 0) \<longrightarrow>
             nt \<le> (\<Sum>x\<leftarrow>xs. int (length (val (heap s x)))) \<or>
             L - set xs = {root_node s})))"
proof -
  let ?s0 = "s\<lparr>flag := True, call_counter := call_counter s + 1\<rparr>"
  have inv0: "tree_inv ?s0 L d" by (rule tree_inv_counters[OF inv])
  from collect_leaves_wf[OF inv0] obtain ls where ls: "distinct ls"
    "set ls = {m \<in> L. children (heap ?s0 m) = []}"
    "\<And>fuel. collect_leaves fuel ?s0 = (if card L < fuel then Some ls else None)" by blast
  let ?hs = "heapify (node_lt ?s0) ls"
  have len: "length ?hs \<le> card L"
    using ls(1,2) tree_inv_finite[OF inv]
    by (simp add: heapify_props) (metis (no_types, lifting) card_mono distinct_card mem_Collect_eq subsetI)
  have dh: "distinct ?hs" using ls(1) by (simp add: heapify_props)
  have seth: "set ?hs = {m \<in> L. children (heap ?s0 m) = []}" using ls(2) by (simp add: heapify_props)
  then have sub: "set ?hs \<subseteq> {m \<in> L. children (heap ?s0 m) = []}" by simp
  note loop = evict1_loop_spec[OF inv0 dh sub, of fuel "[]" 0 nt "[]"]
  have ev: "evict fuel s nt w0 =
        (if card L < fuel
         then (case evict1_loop fuel ?s0 [] ?hs 0 nt (Some []) of
                 None \<Rightarrow> None
               | Some (Inl e) \<Rightarrow> Some (Inl e)
               | Some (Inr (s1, freed, num_evicted)) \<Rightarrow>
                   Some (Inr (s1\<lparr>token_counter := token_counter s1 + num_evicted\<rparr>, freed)))
         else None)"
    using en ls(3)[of fuel] by (simp add: evict_def Let_def evict_loop_evict1_loop)
  show ?thesis
  proof (intro conjI impI allI)
    assume f: "2 * card L < fuel"
    then have "card L + length ?hs < fuel" using len by simp
    with loop obtain r1 where r1: "evict1_loop fuel ?s0 [] ?hs 0 nt (Some []) = Some r1" by auto
    with loop obtain s1 fr n1 where "r1 = Inr (s1, fr, n1)" by blast
    with r1 f show "evict fuel s nt w0 \<noteq> None" by (simp add: ev)
  next
    fix r assume r: "evict fuel s nt w0 = Some r"
    then obtain r1 where r1: "evict1_loop fuel ?s0 [] ?hs 0 nt (Some []) = Some r1"
      by (auto simp: ev split: if_splits option.splits)
    from loop[THEN conjunct2, rule_format, OF r1] seth
    obtain s1 xs where
      r1': "r1 = Inr (s1, map (\<lambda>x. val (heap s x)) xs, (\<Sum>x\<leftarrow>xs. int (length (val (heap s x)))))"
      and xs: "distinct xs" "set xs \<subseteq> L - {root_node s}"
        "\<forall>x\<in>set xs. lock_ref (heap s x) \<le> 0"
      and inv1: "tree_inv s1 (L - set xs) d"
      and e1: "evictable_size' s1 = evictable_size' s - (\<Sum>x\<leftarrow>xs. int (length (key (heap s x))))"
      and rt1: "root_node s1 = root_node s"
      and fr1: "\<forall>m. key (heap s1 m) = key (heap s m) \<and> val (heap s1 m) = val (heap s m) \<and>
                 lock_ref (heap s1 m) = lock_ref (heap s m)"
      and c5: "(\<forall>m\<in>L - {root_node s}. lock_ref (heap s m) \<le> 0) \<longrightarrow>
             nt \<le> (\<Sum>x\<leftarrow>xs. int (length (val (heap s x)))) \<or> L - set xs = {root_node s}"
      by auto
    let ?s' = "s1\<lparr>token_counter := token_counter s1 + (\<Sum>x\<leftarrow>xs. int (length (val (heap s x))))\<rparr>"
    have rr: "r = Inr (?s', map (\<lambda>x. val (heap s x)) xs)"
      using r r1 r1' by (simp add: ev split: if_splits)
    have inv': "tree_inv ?s' (L - set xs) d" by (rule tree_inv_cong[OF inv1]) simp_all
    show "\<exists>s' xs. r = Inr (s', map (\<lambda>x. val (heap s x)) xs) \<and>
            distinct xs \<and> set xs \<subseteq> L - {root_node s} \<and>
            (\<forall>x\<in>set xs. lock_ref (heap s x) \<le> 0) \<and>
            tree_inv s' (L - set xs) d \<and>
            evictable_size' s' =
              evictable_size' s - (\<Sum>x\<leftarrow>xs. int (length (key (heap s x)))) \<and>
            root_node s' = root_node s \<and>
            (\<forall>m. key (heap s' m) = key (heap s m) \<and> val (heap s' m) = val (heap s m) \<and>
                 lock_ref (heap s' m) = lock_ref (heap s m)) \<and>
            ((\<forall>m\<in>L - {root_node s}. lock_ref (heap s m) \<le> 0) \<longrightarrow>
             nt \<le> (\<Sum>x\<leftarrow>xs. int (length (val (heap s x)))) \<or>
             L - set xs = {root_node s})"
      using rr xs inv' e1 rt1 fr1 c5 by (intro exI[of _ ?s'] exI[of _ xs]) simp
  qed
qed

lemma nonroot_key_nonempty:
  assumes inv: "tree_inv s L d" and n: "n \<in> L" "n \<noteq> root_node s"
  shows "key (heap s n) \<noteq> []"
proof -
  from tree_inv_parent[OF inv n]
  obtain p where p: "p \<in> L" "(hd (key (heap s n)), n) \<in> set (children (heap s p))" by blast
  from tree_inv_child(4)[OF inv p] show ?thesis .
qed

lemma only_root_no_children:
  assumes inv: "tree_inv s {root_node s} d"
  shows "children (heap s (root_node s)) = []"
proof (rule ccontr)
  assume "children (heap s (root_node s)) \<noteq> []"
  then obtain k c where kc: "(k, c) \<in> set (children (heap s (root_node s)))"
    by (cases "children (heap s (root_node s))") auto
  from tree_inv_child(1)[OF inv _ kc] tree_inv_child_not_root[OF inv _ kc] show False by simp
qed

text \<open>C4. On a well-formed tree \<^verbatim>\<open>evict\<close> returns (with enough fuel, and never an
  error). Whenever it returns, the values passed to the callback are the values of
  nodes \<open>xs\<close> of the tree that had \<^verbatim>\<open>lock_ref <= 0\<close>, exactly these nodes have left the
  tree, and every node with \<^verbatim>\<open>lock_ref > 0\<close> is still in the tree with its value and
  its \<^verbatim>\<open>lock_ref\<close>.\<close>

theorem evict_spares_pinned_nodes:
  assumes "wf_tree s"
  shows "(\<exists>fuel r. evict fuel s num_tokens w = Some (Inr r)) \<and>
         (\<forall>fuel r. evict fuel s num_tokens w = Some r \<longrightarrow>
            (\<exists>s' xs. r = Inr (s', map (\<lambda>x. val (heap s x)) xs) \<and>
               (\<forall>x\<in>set xs. in_tree s x \<and> lock_ref (heap s x) \<le> 0) \<and>
               (\<forall>m. in_tree s' m \<longleftrightarrow> in_tree s m \<and> m \<notin> set xs) \<and>
               (\<forall>m. in_tree s m \<and> 0 < lock_ref (heap s m) \<longrightarrow>
                    in_tree s' m \<and> val (heap s' m) = val (heap s m) \<and>
                    lock_ref (heap s' m) = lock_ref (heap s m))))"
proof -
  from assms obtain L d where inv: "tree_inv s L d" unfolding wf_tree_def by blast
  note it = tree_inv_in_tree[OF inv]
  show ?thesis
  proof (cases "disable s")
    case True
    let ?s0 = "s\<lparr>flag := True, call_counter := call_counter s + 1\<rparr>"
    have ev: "evict fuel s num_tokens w = Some (Inr (?s0, []))" for fuel
      using True by (simp add: evict_def)
    have it0: "in_tree ?s0 m \<longleftrightarrow> m \<in> L" for m
      by (rule tree_inv_in_tree[OF tree_inv_counters[OF inv]])
    show ?thesis
    proof (intro conjI allI impI)
      show "\<exists>fuel r. evict fuel s num_tokens w = Some (Inr r)" using ev by blast
    next
      fix fuel r assume "evict fuel s num_tokens w = Some r"
      then have r: "r = Inr (?s0, [])" using ev by simp
      show "\<exists>s' xs. r = Inr (s', map (\<lambda>x. val (heap s x)) xs) \<and>
               (\<forall>x\<in>set xs. in_tree s x \<and> lock_ref (heap s x) \<le> 0) \<and>
               (\<forall>m. in_tree s' m \<longleftrightarrow> in_tree s m \<and> m \<notin> set xs) \<and>
               (\<forall>m. in_tree s m \<and> 0 < lock_ref (heap s m) \<longrightarrow>
                    in_tree s' m \<and> val (heap s' m) = val (heap s m) \<and>
                    lock_ref (heap s' m) = lock_ref (heap s m))"
        using r it it0 by (intro exI[of _ ?s0] exI[of _ "[]"]) simp
    qed
  next
    case False
    note sp = evict_spec[OF inv False, of _ num_tokens w]
    have 1: "\<exists>fuel r. evict fuel s num_tokens w = Some (Inr r)"
    proof -
      from sp[of "Suc (2 * card L)"] obtain r where
        r: "evict (Suc (2 * card L)) s num_tokens w = Some r" by auto
      with sp[of "Suc (2 * card L)"] obtain r' where "r = Inr r'" by blast
      with r show ?thesis by blast
    qed
    have 2: "\<exists>s' xs. r = Inr (s', map (\<lambda>x. val (heap s x)) xs) \<and>
               (\<forall>x\<in>set xs. in_tree s x \<and> lock_ref (heap s x) \<le> 0) \<and>
               (\<forall>m. in_tree s' m \<longleftrightarrow> in_tree s m \<and> m \<notin> set xs) \<and>
               (\<forall>m. in_tree s m \<and> 0 < lock_ref (heap s m) \<longrightarrow>
                    in_tree s' m \<and> val (heap s' m) = val (heap s m) \<and>
                    lock_ref (heap s' m) = lock_ref (heap s m))"
      if "evict fuel s num_tokens w = Some r" for fuel r
    proof -
      from sp[of fuel, THEN conjunct2, rule_format, OF that]
      obtain s' xs where r: "r = Inr (s', map (\<lambda>x. val (heap s x)) xs)"
        and xs: "set xs \<subseteq> L - {root_node s}" "\<forall>x\<in>set xs. lock_ref (heap s x) \<le> 0"
        and inv': "tree_inv s' (L - set xs) d"
        and fr: "\<forall>m. key (heap s' m) = key (heap s m) \<and> val (heap s' m) = val (heap s m) \<and>
                 lock_ref (heap s' m) = lock_ref (heap s m)"
        by blast
      note it' = tree_inv_in_tree[OF inv']
      have a: "\<forall>x\<in>set xs. in_tree s x \<and> lock_ref (heap s x) \<le> 0" using xs it by auto
      have b: "\<forall>m. in_tree s' m \<longleftrightarrow> in_tree s m \<and> m \<notin> set xs" using it it' by simp
      have c: "\<forall>m. in_tree s m \<and> 0 < lock_ref (heap s m) \<longrightarrow>
                    in_tree s' m \<and> val (heap s' m) = val (heap s m) \<and>
                    lock_ref (heap s' m) = lock_ref (heap s m)"
        using b fr xs(2) by fastforce
      from r a b c show ?thesis by blast
    qed
    from 1 2 show ?thesis by blast
  qed
qed

text \<open>C5. An enabled cache with a well-formed tree in which every node below the root
  has \<^verbatim>\<open>|key| == |value|\<close> and \<^verbatim>\<open>lock_ref == 0\<close>, and whose counter is the sum of the
  spec's invariant 5; \<open>ts\<close> is what \<^verbatim>\<open>total_size()\<close> returns. Then \<^verbatim>\<open>evict\<close> for at least
  \<open>ts\<close> tokens returns (with enough fuel, and never an error), and whenever it
  returns only the root is left, the counter is 0 and the slot indices passed to
  the callback are, as a multiset, the ones stored in the tree before the call.\<close>

theorem evict_drains_unpinned_tree:
  assumes "wf_tree s" "lengths_ok s" "\<not> disable s"
    "\<forall>n. in_tree s n \<and> n \<noteq> root_node s \<longrightarrow> lock_ref (heap s n) = 0"
    "evictable_size' s = evictable_sum s"
    "total_size fuel0 s = Some ts" "ts \<le> num_tokens"
  shows "(\<exists>fuel r. evict fuel s num_tokens w = Some (Inr r)) \<and>
         (\<forall>fuel r. evict fuel s num_tokens w = Some r \<longrightarrow>
            (\<exists>s' freed. r = Inr (s', freed) \<and>
               (\<forall>m. in_tree s' m \<longleftrightarrow> m = root_node s') \<and>
               children (heap s' (root_node s')) = [] \<and>
               evictable_size s' = 0 \<and>
               mset (concat freed) = stored_slots s))"
proof -
  from assms(1) obtain L d where inv: "tree_inv s L d" unfolding wf_tree_def by blast
  note it = tree_inv_in_tree[OF inv]
  let ?v = "\<lambda>m. int (length (val (heap s m)))"
  let ?B = "L - {root_node s}"
  have fin: "finite L" by (rule tree_inv_finite[OF inv])
  have rL: "root_node s \<in> L" by (rule tree_inv_root[OF inv])
  have unp: "\<And>m. m \<in> ?B \<Longrightarrow> lock_ref (heap s m) = 0" using assms(4) it by simp
  have pos: "0 < ?v m" if "m \<in> ?B" for m
  proof -
    have "key (heap s m) \<noteq> []" using nonroot_key_nonempty[OF inv] that by simp
    moreover have "length (key (heap s m)) = length (val (heap s m))"
      using assms(2) that it unfolding lengths_ok_def by simp
    ultimately show ?thesis by (cases "val (heap s m)") auto
  qed
  have ts: "ts = sum ?v ?B"
  proof -
    from total_size_wf[OF inv] assms(6) have "ts = sum ?v L" by (metis option.distinct(1) option.inject)
    also have "\<dots> = sum ?v ?B"
      using tree_inv_root_val[OF inv] fin rL by (simp add: sum.remove[of L "root_node s"])
    finally show ?thesis .
  qed
  have esum: "evictable_size' s = sum ?v ?B"
  proof -
    have "{n. in_tree s n \<and> n \<noteq> root_node s \<and> lock_ref (heap s n) = 0} = ?B"
      using it unp by auto
    then show ?thesis using assms(5) by (simp add: evictable_sum_def)
  qed
  have slots: "stored_slots s = (\<Sum>m\<in>?B. mset (val (heap s m)))"
  proof -
    have "stored_slots s = (\<Sum>m\<in>L. mset (val (heap s m)))"
      using tree_inv_nodes[OF inv] by (simp add: stored_slots_def)
    also have "\<dots> = (\<Sum>m\<in>?B. mset (val (heap s m)))"
      using tree_inv_root_val[OF inv] fin rL by (simp add: sum.remove[of L "root_node s"])
    finally show ?thesis .
  qed
  note sp = evict_spec[OF inv assms(3), of _ num_tokens w]
  have 1: "\<exists>fuel r. evict fuel s num_tokens w = Some (Inr r)"
  proof -
    from sp[of "Suc (2 * card L)"] obtain r where
      r: "evict (Suc (2 * card L)) s num_tokens w = Some r" by auto
    with sp[of "Suc (2 * card L)"] obtain r' where "r = Inr r'" by blast
    with r show ?thesis by blast
  qed
  have 2: "\<exists>s' freed. r = Inr (s', freed) \<and>
               (\<forall>m. in_tree s' m \<longleftrightarrow> m = root_node s') \<and>
               children (heap s' (root_node s')) = [] \<and>
               evictable_size s' = 0 \<and>
               mset (concat freed) = stored_slots s"
    if "evict fuel s num_tokens w = Some r" for fuel r
  proof -
    from sp[of fuel, THEN conjunct2, rule_format, OF that]
    obtain s' xs where r: "r = Inr (s', map (\<lambda>x. val (heap s x)) xs)"
      and xs: "distinct xs" "set xs \<subseteq> ?B"
      and inv': "tree_inv s' (L - set xs) d"
      and e': "evictable_size' s' =
              evictable_size' s - (\<Sum>x\<leftarrow>xs. int (length (key (heap s x))))"
      and rt: "root_node s' = root_node s"
      and c5: "(\<forall>m\<in>?B. lock_ref (heap s m) \<le> 0) \<longrightarrow>
             num_tokens \<le> (\<Sum>x\<leftarrow>xs. ?v x) \<or> L - set xs = {root_node s}"
      by blast
    have sl: "(\<Sum>x\<leftarrow>xs. ?v x) = sum ?v (set xs)"
      using xs(1) by (rule sum_list_distinct_conv_sum_set)
    have all: "set xs = ?B"
    proof (rule ccontr)
      assume ne: "set xs \<noteq> ?B"
      then obtain m where m: "m \<in> ?B" "m \<notin> set xs" using xs(2) by blast
      then have "L - set xs \<noteq> {root_node s}" by blast
      with c5 unp have "num_tokens \<le> sum ?v (set xs)" using sl by simp
      then have le: "sum ?v ?B \<le> sum ?v (set xs)" using ts assms(7) by simp
      have "sum ?v ?B = sum ?v (set xs) + sum ?v (?B - set xs)"
        using xs(2) fin by (simp add: sum.subset_diff[of "set xs" ?B])
      moreover have "0 < sum ?v (?B - set xs)"
        using m pos fin by (intro sum_pos) auto
      ultimately show False using le by simp
    qed
    then have Lx: "L - set xs = {root_node s'}" using rL rt by auto
    have a: "\<forall>m. in_tree s' m \<longleftrightarrow> m = root_node s'"
      using tree_inv_in_tree[OF inv'] Lx by simp
    have b: "children (heap s' (root_node s')) = []"
      using only_root_no_children[of s' d] inv' Lx by simp
    have "(\<Sum>x\<leftarrow>xs. int (length (key (heap s x)))) = (\<Sum>x\<leftarrow>xs. ?v x)"
    proof (rule arg_cong[where f = sum_list], rule map_cong[OF refl])
      fix x assume "x \<in> set xs"
      then have "in_tree s x \<and> x \<noteq> root_node s" using xs(2) it by auto
      then show "int (length (key (heap s x))) = ?v x"
        using assms(2) unfolding lengths_ok_def by simp
    qed
    then have c: "evictable_size s' = 0"
      using e' esum sl all by (simp add: evictable_size_def)
    have "mset (concat (map (\<lambda>x. val (heap s x)) xs)) = (\<Sum>x\<leftarrow>xs. mset (val (heap s x)))"
      by (simp add: mset_concat comp_def)
    also have "\<dots> = (\<Sum>m\<in>set xs. mset (val (heap s m)))"
      using xs(1) by (rule sum_list_distinct_conv_sum_set)
    finally have e: "mset (concat (map (\<lambda>x. val (heap s x)) xs)) = stored_slots s"
      using slots all by simp
    from r a b c e show ?thesis by blast
  qed
  from 1 2 show ?thesis by blast
qed

section \<open>The aggregates under the mutations of \<^verbatim>\<open>match_prefix\<close> and \<^verbatim>\<open>insert\<close>\<close>

lemma evictable_sum_L:
  assumes "tree_inv s L d"
  shows "evictable_sum s =
         (\<Sum>n\<in>L - {root_node s}. if lock_ref (heap s n) = 0
                                   then int (length (val (heap s n))) else 0)"
proof -
  have "{n. in_tree s n \<and> n \<noteq> root_node s \<and> lock_ref (heap s n) = 0} =
        {n \<in> L - {root_node s}. lock_ref (heap s n) = 0}"
    using tree_inv_in_tree[OF assms] by auto
  then have "evictable_sum s =
      sum (\<lambda>n. int (length (val (heap s n)))) {n \<in> L - {root_node s}. lock_ref (heap s n) = 0}"
    by (simp only: evictable_sum_def)
  also have "\<dots> = (\<Sum>n\<in>L - {root_node s}. if lock_ref (heap s n) = 0
                                   then int (length (val (heap s n))) else 0)"
    by (rule sum.inter_filter) (use tree_inv_finite[OF assms] in simp)
  finally show ?thesis .
qed

lemma tree_inv_touch:
  assumes "tree_inv s L d"
  shows "tree_inv (touch n s) L d"
  by (rule tree_inv_cong[OF assms]) simp_all

lemma key_match_le: "key_match a b \<le> length a" "key_match a b \<le> length b"
  by (induction a b rule: key_match.induct) auto

lemma key_match_pos: "a \<noteq> [] \<Longrightarrow> b \<noteq> [] \<Longrightarrow> hd a = hd b \<Longrightarrow> 0 < key_match a b"
  by (cases a; cases b) auto

lemma key_match_take: "take (key_match a b) b = take (key_match a b) a"
  by (induction a b rule: key_match.induct) auto

lemma key_match_prefix: "take (length a) b = a \<Longrightarrow> key_match a b = length a"
proof (induction a arbitrary: b)
  case Nil
  then show ?case by simp
next
  case (Cons x a)
  then show ?case by (cases b) auto
qed



text \<open>The same for a new leaf.\<close>

lemma new_leaf_sums:
  assumes inv: "tree_inv s L d" and n: "node \<in> L" and k: "key0 \<noteq> []"
    and fresh: "map_of (children (heap s node)) (hd key0) = None"
  shows "(\<Sum>m\<in>insert (next_ref s) L. int (length (val (heap (new_leaf s node key0 value) m)))) =
         (\<Sum>m\<in>L. int (length (val (heap s m)))) + int (length value)"
    and "evictable_sum (new_leaf s node key0 value) = evictable_sum s + int (length value)"
    and "\<And>m. m \<in> L \<Longrightarrow> lock_ref (heap (new_leaf s node key0 value) m) = lock_ref (heap s m) \<and>
             key (heap (new_leaf s node key0 value) m) = key (heap s m) \<and>
             val (heap (new_leaf s node key0 value) m) = val (heap s m)"
    and "next_ref s \<notin> L" "next_ref s \<noteq> root_node s"
proof -
  let ?u = "next_ref s" and ?s' = "new_leaf s node key0 value"
  have nlt: "node < ?u" by (rule tree_inv_alloc[OF inv n])
  note eff = new_leaf_effect[OF nlt, where ky = key0 and vl = "value"]
  have uL: "?u \<notin> L" using tree_inv_alloc[OF inv] by auto
  have ur: "?u \<noteq> root_node s" using uL tree_inv_root[OF inv] by auto
  have fin: "finite L" by (rule tree_inv_finite[OF inv])
  have keep: "lock_ref (heap ?s' m) = lock_ref (heap s m) \<and> key (heap ?s' m) = key (heap s m) \<and>
      val (heap ?s' m) = val (heap s m)" if "m \<in> L" for m
  proof -
    have "m \<noteq> ?u" using that uL by auto
    then show ?thesis using eff(8) eff(9)[of m] by (cases "m = node") auto
  qed
  show "next_ref s \<notin> L" "next_ref s \<noteq> root_node s" by (fact uL ur)+
  show "\<And>m. m \<in> L \<Longrightarrow> lock_ref (heap ?s' m) = lock_ref (heap s m) \<and>
             key (heap ?s' m) = key (heap s m) \<and> val (heap ?s' m) = val (heap s m)"
    by (rule keep)
  let ?v = "\<lambda>m. int (length (val (heap s m)))" and ?v' = "\<lambda>m. int (length (val (heap ?s' m)))"
  have "sum ?v' (insert ?u L) = ?v' ?u + sum ?v' L" using fin uL by simp
  also have "sum ?v' L = sum ?v L" using keep by (intro sum.cong) auto
  finally show "sum ?v' (insert ?u L) = sum ?v L + int (length value)" using eff(7) by simp
  let ?g = "\<lambda>m. if lock_ref (heap s m) = 0 then ?v m else 0"
  let ?g' = "\<lambda>m. if lock_ref (heap ?s' m) = 0 then ?v' m else 0"
  let ?B = "L - {root_node s}"
  have finB: "finite ?B" using fin by simp
  have "sum ?g' (insert ?u L - {root_node ?s'}) = sum ?g' (insert ?u ?B)"
    using eff(2) ur by (simp add: insert_Diff_if)
  also have "\<dots> = ?g' ?u + sum ?g' ?B" using finB uL by simp
  also have "sum ?g' ?B = sum ?g ?B" using keep by (intro sum.cong) auto
  finally have "sum ?g' (insert ?u L - {root_node ?s'}) = sum ?g ?B + int (length value)"
    using eff(7) by simp
  then show "evictable_sum ?s' = evictable_sum s + int (length value)"
    using evictable_sum_L[OF inv] evictable_sum_L[OF new_leaf_tree_inv[OF inv n k fresh, of "value"]]
    by simp
qed

section \<open>The recursive helpers on a well-formed tree\<close>


lemma stored_self: "key0 \<noteq> [] \<Longrightarrow> map_of (children (heap s n)) (hd key0) = Some c \<Longrightarrow>
    key (heap s c) = key0 \<Longrightarrow> stored s n key0"
  by (rule stored_step[of key0 s n c]) (simp_all add: stored_nil)

lemma add_prefix_eq_None: "add_prefix p x = None \<longleftrightarrow> x = None"
  by (simp add: add_prefix_def split: option.splits sum.splits prod.splits)

lemma add_prefix_SomeD: "add_prefix p x = Some r \<Longrightarrow> \<exists>r0. x = Some r0"
  by (cases x) (simp_all add: add_prefix_def)

lemma insert_helper_new_leaf:
  assumes "key0 \<noteq> []" "map_of (children (heap (touch node s) node)) (hd key0) = None"
  shows "insert_helper (Suc fuel) s node key0 value =
         Some (Inr (0, new_leaf (touch node s) node key0 value))"
  using assms by (simp add: new_leaf_def Let_def split_beta)

text \<open>The same for \<^verbatim>\<open>_insert_helper\<close>, for a property that is also kept when a leaf
  is hung under a node. In the cache it returns, the key is stored below the node it
  started from, and no node at or above the rank of that node has changed, but for
  the children and the timestamp of the node itself.\<close>

lemma insert_helper_spec:
  assumes P_touch: "\<And>s L d n. tree_inv s L d \<Longrightarrow> P s \<Longrightarrow> P (touch n s)"
    and P_split: "\<And>s L d n k c p u s'. tree_inv s L d \<Longrightarrow> P s \<Longrightarrow> n \<in> L \<Longrightarrow>
        (k, c) \<in> set (children (heap s n)) \<Longrightarrow> 0 < p \<Longrightarrow> p < length (key (heap s c)) \<Longrightarrow>
        split_node s (key (heap s c)) c p = Inr (u, s') \<Longrightarrow> P s'"
    and P_leaf: "\<And>s L d n k v. tree_inv s L d \<Longrightarrow> P s \<Longrightarrow> n \<in> L \<Longrightarrow> k \<noteq> [] \<Longrightarrow>
        map_of (children (heap s n)) (hd k) = None \<Longrightarrow> Q k v \<Longrightarrow> P (new_leaf s n k v)"
    and Q_drop: "\<And>k v i. Q k v \<Longrightarrow> Q (drop i k) (drop i v)"
  shows "tree_inv s L d \<Longrightarrow> node \<in> L \<Longrightarrow> P s \<Longrightarrow> Q key0 value \<Longrightarrow>
     (length key0 < fuel \<longrightarrow> insert_helper fuel s node key0 value \<noteq> None) \<and>
     (\<forall>r. insert_helper fuel s node key0 value = Some r \<longrightarrow>
        (\<exists>m s' L' d'. r = Inr (m, s') \<and> tree_inv s' L' d' \<and> L \<subseteq> L' \<and> P s' \<and>
            stored s' node key0 \<and>
            (\<forall>x\<in>L. d x \<le> d node \<and> x \<noteq> node \<longrightarrow> heap s' x = heap s x) \<and>
            key (heap s' node) = key (heap s node)))"
proof (induction fuel arbitrary: s L d node key0 "value")
  case 0
  then show ?case by simp
next
  case (Suc fuel)
  note inv = Suc.prems(1) and nL = Suc.prems(2) and Q = Suc.prems(4)
  let ?s1 = "touch node s"
  have inv1: "tree_inv ?s1 L d" by (rule tree_inv_touch[OF inv])
  have P1: "P ?s1" by (rule P_touch[OF inv Suc.prems(3)])
  have h1: "heap ?s1 x = heap s x" if "x \<noteq> node" for x using that by simp
  have k1: "key (heap ?s1 x) = key (heap s x)" for x by simp
  let ?R = "\<lambda>s L d node key0 (r :: error + nat \<times> RadixCache).
        \<exists>m s' L' d'. r = Inr (m, s') \<and> tree_inv s' L' d' \<and> L \<subseteq> L' \<and> P s' \<and>
            stored s' node key0 \<and>
            (\<forall>x\<in>L. d x \<le> d node \<and> x \<noteq> node \<longrightarrow> heap s' x = heap s x) \<and>
            key (heap s' node) = key (heap s node)"
  show ?case
  proof (cases "key0 = []")
    case True
    then have "insert_helper (Suc fuel) s node key0 value = Some (Inr (0, ?s1))" by simp
    moreover have "?R s L d node key0 (Inr (0, ?s1))"
      using inv1 P1 True h1 k1 by (intro exI[of _ 0] exI[of _ ?s1] exI[of _ L] exI[of _ d])
        (simp add: stored_nil)
    ultimately show ?thesis by simp
  next
    case k: False
    show ?thesis
    proof (cases "map_of (children (heap ?s1 node)) (hd key0)")
      case None
      let ?u = "next_ref ?s1"
      let ?s' = "new_leaf ?s1 node key0 value"
      have res: "insert_helper (Suc fuel) s node key0 value = Some (Inr (0, ?s'))"
        by (rule insert_helper_new_leaf[OF k None])
      have inv': "tree_inv ?s' (insert ?u L) (d(?u := Suc (d node)))"
        by (rule new_leaf_tree_inv[OF inv1 nL k None])
      have P': "P ?s'" by (rule P_leaf[OF inv1 P1 nL k None Q])
      have nlt: "node < ?u" by (rule tree_inv_alloc[OF inv1 nL])
      note eff = new_leaf_effect[OF nlt, where ky = key0 and vl = "value"]
      have "map_of (children (heap ?s' node)) (hd key0) = Some ?u"
        using eff(8) by (simp add: AList.update_conv')
      moreover have "key (heap ?s' ?u) = key0" using eff(7) by simp
      ultimately have st: "stored ?s' node key0" using k by (intro stored_self[of key0 ?s' node ?u])
      have fr: "heap ?s' x = heap s x" if "x \<in> L" "x \<noteq> node" for x
      proof -
        have "x \<noteq> ?u" using that(1) tree_inv_alloc[OF inv1] by auto
        then show ?thesis using eff(9)[of x] that(2) h1 by simp
      qed
      have kn: "key (heap ?s' node) = key (heap s node)" using eff(8) by simp
      have "?R s L d node key0 (Inr (0, ?s'))"
        using inv' P' st fr kn
        by (intro exI[of _ 0] exI[of _ ?s'] exI[of _ "insert ?u L"]
              exI[of _ "d(?u := Suc (d node))"]) auto
      then show ?thesis using res by simp
    next
      case (Some c)
      then have kc: "(hd key0, c) \<in> set (children (heap ?s1 node))" by (rule map_of_SomeD)
      note ch = tree_inv_child[OF inv1 nL kc]
      let ?kc = "key (heap ?s1 c)"
      let ?pl = "key_match ?kc key0"
      have pl: "0 < ?pl" using key_match_pos[OF ch(4) k ch(5)] .
      have ple: "?pl \<le> length ?kc" "?pl \<le> length key0" by (rule key_match_le)+
      have klen: "0 < length key0" using k by simp
      have Qd: "Q (drop ?pl key0) (drop ?pl value)" by (rule Q_drop[OF Q])
      have fl: "length (drop ?pl key0) < fuel" if "length key0 < Suc fuel"
        using that pl klen by (simp only: length_drop)
      show ?thesis
      proof (cases "?pl = length ?kc")
        case full: True
        have tk: "take (length ?kc) key0 = ?kc"
          using key_match_take[of ?kc key0] full by simp
        show ?thesis
        proof (cases "?pl = length key0")
          case True
          have res: "insert_helper (Suc fuel) s node key0 value = Some (Inr (?pl, ?s1))"
            using k Some full True by (simp add: Let_def)
          from full[symmetric] True have le: "length ?kc = length key0" by (rule trans)
          have "take (length key0) key0 = ?kc" using tk unfolding le .
          then have "?kc = key0" by simp
          then have st: "stored ?s1 node key0" using k Some by (intro stored_self[of key0 ?s1 node c])
          have "?R s L d node key0 (Inr (?pl, ?s1))"
            using inv1 P1 st h1 k1
            by (intro exI[of _ ?pl] exI[of _ ?s1] exI[of _ L] exI[of _ d]) simp
          then show ?thesis using res by simp
        next
          case False
          have step: "insert_helper (Suc fuel) s node key0 value =
                add_prefix ?pl (insert_helper fuel ?s1 c (drop ?pl key0) (drop ?pl value))"
            using k Some full False by (simp add: Let_def)
          note IH = Suc.IH[OF inv1 ch(1) P1 Qd]
          have conv: "?R s L d node key0 (Inr (?pl + m, s'))"
            if "?R ?s1 L d c (drop ?pl key0) (Inr (m, s'))" for m s'
          proof -
            from that obtain L' d' where inv': "tree_inv s' L' d'" "L \<subseteq> L'" "P s'"
              and st: "stored s' c (drop ?pl key0)"
              and fr: "\<And>x. x \<in> L \<Longrightarrow> d x \<le> d c \<Longrightarrow> x \<noteq> c \<Longrightarrow> heap s' x = heap ?s1 x"
              and kk: "key (heap s' c) = ?kc"
              by auto
            have nc: "node \<noteq> c" using ch(3) by auto
            have hn: "heap s' node = heap ?s1 node" using fr[OF nL] ch(3) nc by simp
            have st': "stored s' node key0"
              using k Some tk st hn kk full
              by (intro stored_step[of key0 s' node c]) simp_all
            have fr': "heap s' x = heap s x" if "x \<in> L" "d x \<le> d node" "x \<noteq> node" for x
            proof -
              have "d x \<le> d c" "x \<noteq> c" using that(2) ch(3) by auto
              then show ?thesis using fr[OF that(1)] h1[OF that(3)] by simp
            qed
            have kn: "key (heap s' node) = key (heap s node)" using hn by simp
            show ?thesis
              using inv' st' fr' kn
              by (intro exI[of _ "?pl + m"] exI[of _ s'] exI[of _ L'] exI[of _ d']) simp
          qed
          show ?thesis unfolding step
          proof (intro conjI impI allI)
            assume "length key0 < Suc fuel"
            from IH[THEN conjunct1, rule_format, OF fl[OF this]]
            show "add_prefix ?pl (insert_helper fuel ?s1 c (drop ?pl key0) (drop ?pl value)) \<noteq> None"
              by (simp only: add_prefix_eq_None not_False_eq_True)
          next
            fix r assume a: "add_prefix ?pl (insert_helper fuel ?s1 c (drop ?pl key0) (drop ?pl value)) = Some r"
            then obtain r0 where r0: "insert_helper fuel ?s1 c (drop ?pl key0) (drop ?pl value) = Some r0"
              by (blast dest: add_prefix_SomeD)
            from IH[THEN conjunct2, rule_format, OF r0] obtain m s' where
              m: "r0 = Inr (m, s')" and R0: "?R ?s1 L d c (drop ?pl key0) (Inr (m, s'))" by blast
            have "r = Inr (?pl + m, s')" using a r0 m by (simp add: add_prefix_def)
            then show "?R s L d node key0 r" using conv[OF R0] by simp
          qed
        qed
      next
        case False
        then have lt: "?pl < length ?kc" using ple(1) by simp
        let ?u = "next_ref ?s1"
        let ?d2 = "\<lambda>m. if m = ?u then 2 * d c - 1 else 2 * d m"
        from split_node_effect[OF inv1 nL kc pl lt]
        obtain s2 where sp: "split_node ?s1 ?kc c ?pl = Inr (?u, s2)"
          and Hu: "heap s2 ?u = \<lparr>children = [(?kc ! ?pl, c)], parent = Some node,
              key = take ?pl ?kc, val = take ?pl (val (heap ?s1 c)),
              lock_ref = lock_ref (heap ?s1 c), last_access_time = clock ?s1 (ticks ?s1),
              ref_counter = 0\<rparr>"
          and Hn: "heap s2 node = (heap ?s1 node)\<lparr>children :=
                     AList.update (hd key0) ?u (children (heap ?s1 node))\<rparr>"
          and Ho: "\<And>m. m \<noteq> ?u \<Longrightarrow> m \<noteq> c \<Longrightarrow> m \<noteq> node \<Longrightarrow> heap s2 m = heap ?s1 m"
          by blast
        have inv2: "tree_inv s2 (insert ?u L) ?d2"
          by (rule split_node_tree_inv[OF inv1 nL kc pl lt sp])
        have P2: "P s2" by (rule P_split[OF inv1 P1 nL kc pl lt sp])
        have uL: "?u \<notin> L" using tree_inv_alloc[OF inv1] by auto
        have nu: "node \<noteq> ?u" using uL nL by auto
        have step: "insert_helper (Suc fuel) s node key0 value =
              add_prefix ?pl (insert_helper fuel s2 ?u (drop ?pl key0) (drop ?pl value))"
          using k Some False sp by (simp add: Let_def)
        have uin: "?u \<in> insert ?u L" by simp
        note IH = Suc.IH[OF inv2 uin P2 Qd]
        have conv: "?R s L d node key0 (Inr (?pl + m, s'))"
          if "?R s2 (insert ?u L) ?d2 ?u (drop ?pl key0) (Inr (m, s'))" for m s'
        proof -
          from that obtain L' d' where inv': "tree_inv s' L' d'" "insert ?u L \<subseteq> L'" "P s'"
            and st: "stored s' ?u (drop ?pl key0)"
            and fr: "\<And>x. x \<in> insert ?u L \<Longrightarrow> ?d2 x \<le> ?d2 ?u \<Longrightarrow> x \<noteq> ?u \<Longrightarrow> heap s' x = heap s2 x"
            and kk: "key (heap s' ?u) = key (heap s2 ?u)"
            by auto
          have dn: "?d2 node \<le> ?d2 ?u" using ch(3) nu by simp
          have hn: "heap s' node = heap s2 node" using fr[of node] nL dn nu by simp
          have ku: "key (heap s' ?u) = take ?pl ?kc" using kk Hu by simp
          have lu: "length (key (heap s' ?u)) = ?pl" using ku ple(1) by simp
          have "map_of (children (heap s' node)) (hd key0) = Some ?u"
            using hn Hn by (simp add: AList.update_conv')
          moreover have "take (length (key (heap s' ?u))) key0 = key (heap s' ?u)"
            unfolding lu using ku key_match_take[of ?kc key0] by simp
          ultimately have st': "stored s' node key0"
            using k st lu by (intro stored_step[of key0 s' node ?u]) simp_all
          have fr': "heap s' x = heap s x" if "x \<in> L" "d x \<le> d node" "x \<noteq> node" for x
          proof -
            have xc: "x \<noteq> c" using that(2) ch(3) by auto
            have xu: "x \<noteq> ?u" using that(1) uL by auto
            have "?d2 x \<le> ?d2 ?u" using that(2) ch(3) xu by simp
            then have "heap s' x = heap s2 x" using fr[of x] that(1) xu by simp
            then show ?thesis using Ho[OF xu xc that(3)] h1[OF that(3)] by simp
          qed
          have kn: "key (heap s' node) = key (heap s node)" using hn Hn by simp
          have "L \<subseteq> L'" using inv'(2) by auto
          then show ?thesis
            using inv'(1,3) st' fr' kn
            by (intro exI[of _ "?pl + m"] exI[of _ s'] exI[of _ L'] exI[of _ d']) simp
        qed
        show ?thesis unfolding step
        proof (intro conjI impI allI)
          assume "length key0 < Suc fuel"
          from IH[THEN conjunct1, rule_format, OF fl[OF this]]
          show "add_prefix ?pl (insert_helper fuel s2 ?u (drop ?pl key0) (drop ?pl value)) \<noteq> None"
            by (simp only: add_prefix_eq_None not_False_eq_True)
        next
          fix r assume a: "add_prefix ?pl (insert_helper fuel s2 ?u (drop ?pl key0) (drop ?pl value)) = Some r"
          then obtain r0 where r0: "insert_helper fuel s2 ?u (drop ?pl key0) (drop ?pl value) = Some r0"
            by (blast dest: add_prefix_SomeD)
          from IH[THEN conjunct2, rule_format, OF r0] obtain m s' where
            m: "r0 = Inr (m, s')" and R0: "?R s2 (insert ?u L) ?d2 ?u (drop ?pl key0) (Inr (m, s'))"
            by blast
          have "r = Inr (?pl + m, s')" using a r0 m by (simp add: add_prefix_def)
          then show "?R s L d node key0 r" using conv[OF R0] by simp
        qed
      qed
    qed
  qed
qed

section \<open>A concrete cache for the examples\<close>

lemmas scenario_defs = init_def reset_def insert_op_def match_prefix_def total_size_def
  new_TreeNode_def time_time_def upd_node_def touch_def split_node_def add_prefix_def Let_def

text \<open>The cache of Scenario 1: the root 0, the node 2 with label \<open>[1, 2]\<close> and its
  children 1 (\<open>[3, 4]\<close>) and 3 (\<open>[5]\<close>).\<close>

lemma scenario1_state:
  "\<exists>s. run 3 [Insert [1, 2, 3, 4] (Some [10, 11, 12, 13]), Insert [1, 2, 5] (Some [20, 21, 22])]
         (init c False False) = Some (Inr s) \<and>
       root_node s = 0 \<and> next_ref s = 4 \<and> \<not> disable s \<and> evictable_size' s = 5 \<and>
       heap s 0 = \<lparr>children = [(1, 2)], parent = None, key = [], val = [], lock_ref = 1,
                    last_access_time = c 3, ref_counter = 0\<rparr> \<and>
       heap s 1 = \<lparr>children = [], parent = Some 2, key = [3, 4], val = [12, 13], lock_ref = 0,
                    last_access_time = c 2, ref_counter = 0\<rparr> \<and>
       heap s 2 = \<lparr>children = [(3, 1), (5, 3)], parent = Some 0, key = [1, 2], val = [10, 11],
                    lock_ref = 0, last_access_time = c 5, ref_counter = 0\<rparr> \<and>
       heap s 3 = \<lparr>children = [], parent = Some 2, key = [5], val = [22], lock_ref = 0,
                    last_access_time = c 6, ref_counter = 0\<rparr>"
  by (simp add: scenario_defs numeral_eq_Suc)

lemma scenario1_inv:
  "\<exists>s. run 3 [Insert [1, 2, 3, 4] (Some [10, 11, 12, 13]), Insert [1, 2, 5] (Some [20, 21, 22])]
         (init c False False) = Some (Inr s) \<and>
       tree_inv s {0, 1, 2, 3} (\<lambda>n. if n = 0 then 0 else if n = 2 then 1 else 2) \<and>
       root_node s = 0 \<and> \<not> disable s \<and> evictable_size' s = 5 \<and>
       children (heap s 1) = [] \<and> children (heap s 3) = [] \<and>
       (\<forall>n\<in>{1, 2, 3}. lock_ref (heap s n) = 0 \<and> length (key (heap s n)) = length (val (heap s n))) \<and>
       val (heap s 1) = [12, 13] \<and> val (heap s 2) = [10, 11] \<and> val (heap s 3) = [22]"
proof -
  from scenario1_state[of c] obtain s where
    s: "run 3 [Insert [1, 2, 3, 4] (Some [10, 11, 12, 13]), Insert [1, 2, 5] (Some [20, 21, 22])]
         (init c False False) = Some (Inr s)"
    "root_node s = 0" "next_ref s = 4" "\<not> disable s" "evictable_size' s = 5"
    and h: "heap s 0 = \<lparr>children = [(1, 2)], parent = None, key = [], val = [], lock_ref = 1,
                    last_access_time = c 3, ref_counter = 0\<rparr>"
      "heap s 1 = \<lparr>children = [], parent = Some 2, key = [3, 4], val = [12, 13], lock_ref = 0,
                    last_access_time = c 2, ref_counter = 0\<rparr>"
      "heap s 2 = \<lparr>children = [(3, 1), (5, 3)], parent = Some 0, key = [1, 2], val = [10, 11],
                    lock_ref = 0, last_access_time = c 5, ref_counter = 0\<rparr>"
      "heap s 3 = \<lparr>children = [], parent = Some 2, key = [5], val = [22], lock_ref = 0,
                    last_access_time = c 6, ref_counter = 0\<rparr>"
    by blast
  have "tree_inv s {0, 1, 2, 3} (\<lambda>n. if n = 0 then 0 else if n = 2 then 1 else 2)"
    unfolding tree_inv_def using s(2,3) h by simp
  then show ?thesis using s h by (intro exI[of _ s]) simp
qed

text \<open>Witness for C9: node 1 of the Scenario 1 cache.\<close>

theorem lock_ref_returns_delta_witness:
  "\<exists>s. run 3 [Insert [1, 2, 3, 4] (Some [10, 11, 12, 13]), Insert [1, 2, 5] (Some [20, 21, 22])]
         (init real False False) = Some (Inr s) \<and>
       wf_tree s \<and> in_tree s 1 \<and>
       (\<exists>fuel delta s'. inc_lock_ref fuel s 1 = Some (Inr (delta, s'))) \<and>
       (\<forall>fuel r. inc_lock_ref fuel s 1 = Some r \<longrightarrow>
          (\<exists>delta s'. r = Inr (delta, s') \<and>
             evictable_size s' = evictable_size s + delta \<and> delta \<le> 0)) \<and>
       (\<exists>fuel delta s'. dec_lock_ref fuel s 1 = Some (Inr (delta, s'))) \<and>
       (\<forall>fuel r. dec_lock_ref fuel s 1 = Some r \<longrightarrow>
          (\<exists>delta s'. r = Inr (delta, s') \<and>
             evictable_size s' = evictable_size s + delta \<and> 0 \<le> delta))"
proof -
  from scenario1_inv[of real] obtain s where
    s: "run 3 [Insert [1, 2, 3, 4] (Some [10, 11, 12, 13]), Insert [1, 2, 5] (Some [20, 21, 22])]
         (init real False False) = Some (Inr s)"
    and inv: "tree_inv s {0, 1, 2, 3} (\<lambda>n. if n = 0 then 0 else if n = 2 then 1 else 2)"
    by blast
  have wf: "wf_tree s" using inv unfolding wf_tree_def by blast
  have n: "in_tree s 1" by (rule in_L_in_tree[OF inv]) simp
  from lock_ref_returns_delta[OF wf n] s wf n show ?thesis by (intro exI[of _ s]) blast
qed

text \<open>Witness for C10: the unpinned leaf 1 of the Scenario 1 cache.\<close>

theorem evict1_without_reserved_set_raises_witness:
  "\<exists>s. run 3 [Insert [1, 2, 3, 4] (Some [10, 11, 12, 13]), Insert [1, 2, 5] (Some [20, 21, 22])]
         (init real False False) = Some (Inr s) \<and>
       wf_tree s \<and> \<not> disable s \<and> in_tree s 1 \<and> 1 \<noteq> root_node s \<and>
       children (heap s 1) = [] \<and> lock_ref (heap s 1) = 0 \<and> (1::int) \<le> 1 \<and>
       (\<exists>fuel. evict1 fuel s 1 None = Some (Inl TypeError)) \<and>
       (\<forall>fuel. evict1 fuel s 1 None = None \<or> evict1 fuel s 1 None = Some (Inl TypeError)) \<and>
       (\<forall>fuel w. evict fuel s 1 w = evict fuel s 1 None)"
proof -
  from scenario1_inv[of real] obtain s where
    s: "run 3 [Insert [1, 2, 3, 4] (Some [10, 11, 12, 13]), Insert [1, 2, 5] (Some [20, 21, 22])]
         (init real False False) = Some (Inr s)"
    and inv: "tree_inv s {0, 1, 2, 3} (\<lambda>n. if n = 0 then 0 else if n = 2 then 1 else 2)"
    and f: "root_node s = 0" "\<not> disable s" "children (heap s 1) = []"
      "\<forall>n\<in>{1, 2, 3}. lock_ref (heap s n) = 0 \<and> length (key (heap s n)) = length (val (heap s n))"
    by blast
  have wf: "wf_tree s" using inv unfolding wf_tree_def by blast
  have n: "in_tree s 1" by (rule in_L_in_tree[OF inv]) simp
  have r: "1 \<noteq> root_node s" using f(1) by simp
  have l: "lock_ref (heap s 1) = 0" using f(4) by simp
  have t: "(1::int) \<le> 1" by simp
  from evict1_without_reserved_set_raises[OF wf f(2) n r f(3) l t] s wf f(2) n r f(3) l
  show ?thesis by (intro exI[of _ s]) simp
qed

lemma scenario1_facts:
  "\<exists>s. run 3 [Insert [1, 2, 3, 4] (Some [10, 11, 12, 13]), Insert [1, 2, 5] (Some [20, 21, 22])]
         (init real False False) = Some (Inr s) \<and>
       wf_tree s \<and> lengths_ok s \<and> \<not> disable s \<and>
       (\<forall>n. in_tree s n \<and> n \<noteq> root_node s \<longrightarrow> lock_ref (heap s n) = 0) \<and>
       evictable_size' s = evictable_sum s \<and> total_size 3 s = Some 5"
proof -
  from scenario1_state[of real] obtain s where
    s: "run 3 [Insert [1, 2, 3, 4] (Some [10, 11, 12, 13]), Insert [1, 2, 5] (Some [20, 21, 22])]
         (init real False False) = Some (Inr s)"
    "root_node s = 0" "next_ref s = 4" "\<not> disable s" "evictable_size' s = 5"
    and h: "heap s 0 = \<lparr>children = [(1, 2)], parent = None, key = [], val = [], lock_ref = 1,
                    last_access_time = real 3, ref_counter = 0\<rparr>"
      "heap s 1 = \<lparr>children = [], parent = Some 2, key = [3, 4], val = [12, 13], lock_ref = 0,
                    last_access_time = real 2, ref_counter = 0\<rparr>"
      "heap s 2 = \<lparr>children = [(3, 1), (5, 3)], parent = Some 0, key = [1, 2], val = [10, 11],
                    lock_ref = 0, last_access_time = real 5, ref_counter = 0\<rparr>"
      "heap s 3 = \<lparr>children = [], parent = Some 2, key = [5], val = [22], lock_ref = 0,
                    last_access_time = real 6, ref_counter = 0\<rparr>"
    by blast
  have inv: "tree_inv s {0, 1, 2, 3} (\<lambda>n. if n = 0 then 0 else if n = 2 then 1 else 2)"
    unfolding tree_inv_def using s(2,3) h by simp
  note it = tree_inv_in_tree[OF inv]
  have wf: "wf_tree s" using inv unfolding wf_tree_def by blast
  have len: "lengths_ok s" unfolding lengths_ok_def using it h by auto
  have unp: "\<forall>n. in_tree s n \<and> n \<noteq> root_node s \<longrightarrow> lock_ref (heap s n) = 0"
    using it h s(2) by auto
  have "{n. in_tree s n \<and> n \<noteq> root_node s \<and> lock_ref (heap s n) = 0} = {1, 2, 3}"
    using it h s(2) by auto
  then have es: "evictable_size' s = evictable_sum s" using h s(5) by (simp add: evictable_sum_def)
  have ts: "total_size 3 s = Some 5" using h s(2) by (simp add: total_size_def numeral_eq_Suc)
  from s(1,4) wf len unp es ts show ?thesis by blast
qed

text \<open>Scenario 2: the same cache after \<^verbatim>\<open>inc_lock_ref\<close> on node 1, which pins the nodes
  1 and 2.\<close>

lemma scenario2_state:
  "\<exists>s. run 3 [Insert [1, 2, 3, 4] (Some [10, 11, 12, 13]), Insert [1, 2, 5] (Some [20, 21, 22]),
              IncLockRef 1] (init c False False) = Some (Inr s) \<and>
       root_node s = 0 \<and> next_ref s = 4 \<and> \<not> disable s \<and> evictable_size' s = 1 \<and>
       heap s 0 = \<lparr>children = [(1, 2)], parent = None, key = [], val = [], lock_ref = 1,
                    last_access_time = c 3, ref_counter = 0\<rparr> \<and>
       heap s 1 = \<lparr>children = [], parent = Some 2, key = [3, 4], val = [12, 13], lock_ref = 1,
                    last_access_time = c 2, ref_counter = 0\<rparr> \<and>
       heap s 2 = \<lparr>children = [(3, 1), (5, 3)], parent = Some 0, key = [1, 2], val = [10, 11],
                    lock_ref = 1, last_access_time = c 5, ref_counter = 0\<rparr> \<and>
       heap s 3 = \<lparr>children = [], parent = Some 2, key = [5], val = [22], lock_ref = 0,
                    last_access_time = c 6, ref_counter = 0\<rparr>"
  by (simp add: scenario_defs inc_lock_ref_def numeral_eq_Suc)

lemma scenario2_wf:
  "\<exists>s. run 3 [Insert [1, 2, 3, 4] (Some [10, 11, 12, 13]), Insert [1, 2, 5] (Some [20, 21, 22]),
              IncLockRef 1] (init real False False) = Some (Inr s) \<and> wf_tree s"
proof -
  from scenario2_state[of real] obtain s where
    s: "run 3 [Insert [1, 2, 3, 4] (Some [10, 11, 12, 13]), Insert [1, 2, 5] (Some [20, 21, 22]),
              IncLockRef 1] (init real False False) = Some (Inr s)"
    "root_node s = 0" "next_ref s = 4"
    and h: "heap s 0 = \<lparr>children = [(1, 2)], parent = None, key = [], val = [], lock_ref = 1,
                    last_access_time = real 3, ref_counter = 0\<rparr>"
      "heap s 1 = \<lparr>children = [], parent = Some 2, key = [3, 4], val = [12, 13], lock_ref = 1,
                    last_access_time = real 2, ref_counter = 0\<rparr>"
      "heap s 2 = \<lparr>children = [(3, 1), (5, 3)], parent = Some 0, key = [1, 2], val = [10, 11],
                    lock_ref = 1, last_access_time = real 5, ref_counter = 0\<rparr>"
      "heap s 3 = \<lparr>children = [], parent = Some 2, key = [5], val = [22], lock_ref = 0,
                    last_access_time = real 6, ref_counter = 0\<rparr>"
    by blast
  have "tree_inv s {0, 1, 2, 3} (\<lambda>n. if n = 0 then 0 else if n = 2 then 1 else 2)"
    unfolding tree_inv_def using s(2,3) h by simp
  then have "wf_tree s" unfolding wf_tree_def by blast
  with s(1) show ?thesis by blast
qed

text \<open>Witness for C4: \<^verbatim>\<open>evict(100, cb)\<close> on the cache of Scenario 2.\<close>

theorem evict_spares_pinned_nodes_witness:
  "\<exists>s. run 3 [Insert [1, 2, 3, 4] (Some [10, 11, 12, 13]), Insert [1, 2, 5] (Some [20, 21, 22]),
              IncLockRef 1] (init real False False) = Some (Inr s) \<and> wf_tree s \<and>
       (\<exists>fuel r. evict fuel s 100 None = Some (Inr r)) \<and>
       (\<forall>fuel r. evict fuel s 100 None = Some r \<longrightarrow>
            (\<exists>s' xs. r = Inr (s', map (\<lambda>x. val (heap s x)) xs) \<and>
               (\<forall>x\<in>set xs. in_tree s x \<and> lock_ref (heap s x) \<le> 0) \<and>
               (\<forall>m. in_tree s' m \<longleftrightarrow> in_tree s m \<and> m \<notin> set xs) \<and>
               (\<forall>m. in_tree s m \<and> 0 < lock_ref (heap s m) \<longrightarrow>
                    in_tree s' m \<and> val (heap s' m) = val (heap s m) \<and>
                    lock_ref (heap s' m) = lock_ref (heap s m))))"
proof -
  from scenario2_wf obtain s where
    s: "run 3 [Insert [1, 2, 3, 4] (Some [10, 11, 12, 13]), Insert [1, 2, 5] (Some [20, 21, 22]),
              IncLockRef 1] (init real False False) = Some (Inr s)" "wf_tree s"
    by blast
  from evict_spares_pinned_nodes[OF s(2), of 100 None] s show ?thesis
    by (intro exI[of _ s] conjI) blast+
qed

text \<open>Witness for C5: \<^verbatim>\<open>evict(100, cb)\<close> on the cache of Scenario 1, whose
  \<^verbatim>\<open>total_size()\<close> is 5.\<close>

theorem evict_drains_unpinned_tree_witness:
  "\<exists>s. run 3 [Insert [1, 2, 3, 4] (Some [10, 11, 12, 13]), Insert [1, 2, 5] (Some [20, 21, 22])]
         (init real False False) = Some (Inr s) \<and>
       wf_tree s \<and> lengths_ok s \<and> \<not> disable s \<and>
       (\<forall>n. in_tree s n \<and> n \<noteq> root_node s \<longrightarrow> lock_ref (heap s n) = 0) \<and>
       evictable_size' s = evictable_sum s \<and> total_size 3 s = Some 5 \<and> (5::int) \<le> 100 \<and>
       (\<exists>fuel r. evict fuel s 100 None = Some (Inr r)) \<and>
       (\<forall>fuel r. evict fuel s 100 None = Some r \<longrightarrow>
            (\<exists>s' freed. r = Inr (s', freed) \<and>
               (\<forall>m. in_tree s' m \<longleftrightarrow> m = root_node s') \<and>
               children (heap s' (root_node s')) = [] \<and>
               evictable_size s' = 0 \<and>
               mset (concat freed) = stored_slots s))"
proof -
  from scenario1_facts obtain s where
    s: "run 3 [Insert [1, 2, 3, 4] (Some [10, 11, 12, 13]), Insert [1, 2, 5] (Some [20, 21, 22])]
         (init real False False) = Some (Inr s)"
    and f: "wf_tree s" "lengths_ok s" "\<not> disable s"
      "\<forall>n. in_tree s n \<and> n \<noteq> root_node s \<longrightarrow> lock_ref (heap s n) = 0"
      "evictable_size' s = evictable_sum s" "total_size 3 s = Some 5"
    by blast
  have le: "(5::int) \<le> 100" by simp
  from evict_drains_unpinned_tree[OF f le, of None] s f le show ?thesis
    by (intro exI[of _ s] conjI) blast+
qed

section \<open>The frame of a prefix match\<close>






section \<open>The scenarios\<close>

text \<open>C2. Scenario 1 of the spec, from a fresh enabled cache and for every clock: the
  first insert returns 0, the second returns 2 and splits the node, the tree has the
  shape the spec draws (\<open>n\<close> is the upper node, \<open>a\<close> and \<open>b\<close> its children),
  \<^verbatim>\<open>total_size()\<close> is 5 and \<^verbatim>\<open>match_prefix([1,2,3])\<close> returns \<open>[10, 11, 12]\<close>. The fuel
  given to each call is enough for it.\<close>

theorem scenario_split_on_insert:
  "\<exists>s1 s2 n a b last_node s3.
     insert_op 2 (init c False False) [1, 2, 3, 4] (Some [10, 11, 12, 13]) = Some (Inr (0, s1)) \<and>
     insert_op 3 s1 [1, 2, 5] (Some [20, 21, 22]) = Some (Inr (2, s2)) \<and>
     children (heap s2 (root_node s2)) = [(1, n)] \<and>
     key (heap s2 n) = [1, 2] \<and> val (heap s2 n) = [10, 11] \<and>
     children (heap s2 n) = [(3, a), (5, b)] \<and>
     key (heap s2 a) = [3, 4] \<and> val (heap s2 a) = [12, 13] \<and> children (heap s2 a) = [] \<and>
     key (heap s2 b) = [5] \<and> val (heap s2 b) = [22] \<and> children (heap s2 b) = [] \<and>
     total_size 3 s2 = Some 5 \<and>
     match_prefix 3 s2 [1, 2, 3] = Some (Inr ([10, 11, 12], last_node, s3))"
  by (simp add: scenario_defs numeral_eq_Suc)

lemmas evict_defs = evict_def evict1_def collect_leaves_def delete_leaf_def node_lt_def
  heappop_def heappush_def heapify_def siftup_def siftdown_def siftup_loop.simps
  siftdown_loop.simps

text \<open>C3. Two leaves inserted one after the other under a strictly increasing clock:
  \<^verbatim>\<open>_collect_leaves\<close> lists the newer leaf first, \<^verbatim>\<open>evict1\<close> pops from that list
  without \<^verbatim>\<open>heapify\<close> and frees the newer leaf \<open>[200]\<close> while the older one is still
  a candidate; \<^verbatim>\<open>evict\<close> frees the older leaf \<open>[100]\<close> on the same cache.\<close>

theorem evict1_frees_newer_leaf:
  "\<exists>s1 s2 s3 s4.
     insert_op 2 (init real False False) [1] (Some [100]) = Some (Inr (0, s1)) \<and>
     insert_op 2 s1 [2] (Some [200]) = Some (Inr (0, s2)) \<and>
     collect_leaves 4 s2 = Some [2, 1] \<and>
     val (heap s2 1) = [100] \<and> val (heap s2 2) = [200] \<and>
     lock_ref (heap s2 1) = 0 \<and> lock_ref (heap s2 2) = 0 \<and>
     last_access_time (heap s2 1) < last_access_time (heap s2 2) \<and>
     evict1 4 s2 1 (Some []) = Some (Inr (s3, [[200]])) \<and>
     evict 4 s2 1 None = Some (Inr (s4, [[100]]))"
  by (simp add: scenario_defs evict_defs numeral_eq_Suc)

text \<open>C8. A key that is stored already: the second \<^verbatim>\<open>insert\<close> reads the clock once
  (reading 3, for the root) and returns at the full hit, and the node that holds the
  key keeps the reading 2 of the first call.\<close>

theorem insert_full_hit_keeps_timestamp:
  "\<exists>s1 s2.
     insert_op 2 (init c False False) [1] (Some [10]) = Some (Inr (0, s1)) \<and>
     ticks s1 = 3 \<and>
     insert_op 2 s1 [1] (Some [20]) = Some (Inr (1, s2)) \<and>
     ticks s2 = 4 \<and>
     children (heap s2 (root_node s2)) = [(1, 1)] \<and> key (heap s2 1) = [1] \<and>
     last_access_time (heap s2 (root_node s2)) = c 3 \<and>
     last_access_time (heap s2 1) = c 2"
  by (simp add: scenario_defs numeral_eq_Suc)

end
